theory Spec2Isabelle
  imports Complex_Main "HOL-Library.Multiset"
begin

section \<open>Timing-point generation (Mode A) of \<^verbatim>\<open>CompanellaTools/bpm.py\<close>\<close>

text \<open>
  The embedding follows \<^verbatim>\<open>src/CompanellaTools/bpm.py\<close> from the point where the onset
  times, the seed tempo and the seed anchor are known (lines 277 to 387) together with
  the helpers \<^verbatim>\<open>find_nearest_onset\<close>, \<open>robust_slope_s_per_beat\<close> and
  \<^verbatim>\<open>choose_best_phase\<close>.

  Python floats are modelled as the real numbers: every arithmetic operation is exact,
  there is no rounding and no overflow.  The two non-real float values the code can
  produce are modelled explicitly: the \<^verbatim>\<open>nan\<close> that \<^verbatim>\<open>np.median\<close> returns for
  an empty array is \<open>None\<close> (every comparison with it is false, as in Python), and the
  \<^verbatim>\<open>float("inf")\<close> that initialises the best median error in the phase selector is
  \<open>None\<close> of an option compared by \<open>ext_less\<close>.  \<^verbatim>\<open>np.isfinite\<close> is therefore
  always true in the model.  Python integers are \<open>int\<close>.
\<close>

subsection \<open>Onset matcher: \<^verbatim>\<open>find_nearest_onset\<close> (lines 142 to 167)\<close>

text \<open>The scan \<^verbatim>\<open>while i + 1 < n and onset_times[i] < t - window_s: i += 1\<close>;
  the third argument is the bound \<^verbatim>\<open>t - window_s\<close>.\<close>

function advance_hint :: "real list \<Rightarrow> int \<Rightarrow> real \<Rightarrow> int" where
  "advance_hint onset_times i bound =
     (if i + 1 < int (length onset_times) \<and> onset_times ! nat i < bound
      then advance_hint onset_times (i + 1) bound else i)"
  by pat_completeness auto
termination
  by (relation "measure (\<lambda>(onset_times, i, bound). nat (int (length onset_times) - i))") auto

declare advance_hint.simps [simp del]

text \<open>The candidate list built by the \<^verbatim>\<open>for j in (i - 1, i, i + 1, i + 2)\<close> loop: pairs
  \<open>(dt, j)\<close> in the order of \<open>j\<close>, for the indices in range whose distance is within the
  window.\<close>

definition candidates :: "real list \<Rightarrow> int \<Rightarrow> real \<Rightarrow> real \<Rightarrow> (real \<times> int) list" where
  "candidates onset_times i t window_s =
     [(\<bar>onset_times ! nat j - t\<bar>, j).
        j \<leftarrow> [i - 1, i, i + 1, i + 2],
        0 \<le> j \<and> j < int (length onset_times),
        \<bar>onset_times ! nat j - t\<bar> \<le> window_s]"

text \<open>Python's \<^verbatim>\<open>min(candidates, key=lambda x: x[0])\<close>: the first element with the
  least key (a later element replaces the current one only when its key is strictly
  smaller).\<close>

fun min_by_key :: "(real \<times> int) \<Rightarrow> (real \<times> int) list \<Rightarrow> (real \<times> int)" where
  "min_by_key best [] = best"
| "min_by_key best (c # cs) = min_by_key (if fst c < fst best then c else best) cs"

definition find_nearest_onset ::
  "real list \<Rightarrow> int \<Rightarrow> real \<Rightarrow> real \<Rightarrow> real option \<times> int" where
  "find_nearest_onset onset_times idx_hint t window_s =
     (if length onset_times = 0 then (None, idx_hint)
      else
        let i = advance_hint onset_times (max 0 idx_hint) (t - window_s) in
        case candidates onset_times i t window_s of
          [] \<Rightarrow> (None, i)
        | c # cs \<Rightarrow>
            (let best_j = snd (min_by_key c cs)
             in (Some (onset_times ! nat best_j), best_j)))"

text \<open>A sequence of queries with the hint threaded from call to call, as both callers
  do: the result lists, for every query, the match and the hint returned.\<close>

fun run_queries ::
  "real list \<Rightarrow> real \<Rightarrow> int \<Rightarrow> real list \<Rightarrow> (real option \<times> int) list" where
  "run_queries onset_times window_s idx_hint [] = []"
| "run_queries onset_times window_s idx_hint (t # ts) =
     (let r = find_nearest_onset onset_times idx_hint t window_s
      in r # run_queries onset_times window_s (snd r) ts)"

subsection \<open>The onset matcher in float64 arithmetic\<close>

text \<open>
  The model above computes \<^verbatim>\<open>t - window_s\<close> and \<^verbatim>\<open>onset_times[j] - t\<close> exactly.  The
  program computes them in float64, where the result of a subtraction is rounded to the
  nearest number with 53 significant bits, ties to even.  \<open>fl64\<close> is that rounding
  for finite results (subnormal numbers included, overflow to infinity left out), with
  the binary exponent (the floor of the binary logarithm of \<open>\<bar>x\<bar>\<close>) found by halving or doubling.
\<close>

function exponent_up :: "real \<Rightarrow> int" where
  "exponent_up x = (if x < 2 then 0 else exponent_up (x / 2) + 1)"
  by pat_completeness auto
termination
proof (relation "measure (\<lambda>x. nat \<lfloor>x\<rfloor>)")
  show "wf (measure (\<lambda>x. nat \<lfloor>x\<rfloor>))" by simp
next
  fix x :: real
  assume "\<not> x < 2"
  then have "x / 2 \<le> x - 1" by simp
  then have "\<lfloor>x / 2\<rfloor> \<le> \<lfloor>x\<rfloor> - 1" by (metis floor_mono floor_diff_one)
  moreover from \<open>\<not> x < 2\<close> have "2 \<le> \<lfloor>x\<rfloor>" by (simp add: le_floor_iff)
  ultimately show "(x / 2, x) \<in> measure (\<lambda>x. nat \<lfloor>x\<rfloor>)" by simp
qed

function exponent_down :: "real \<Rightarrow> int" where
  "exponent_down x = (if x \<le> 0 \<or> 1 \<le> x then 0 else exponent_down (2 * x) - 1)"
  by pat_completeness auto
termination
proof (relation "measure (\<lambda>x. nat \<lfloor>1 / x\<rfloor>)")
  show "wf (measure (\<lambda>x. nat \<lfloor>1 / x\<rfloor>))" by simp
next
  fix x :: real
  assume "\<not> (x \<le> 0 \<or> 1 \<le> x)"
  then have x: "0 < x" "x < 1" by simp_all
  then have one: "1 < 1 / x" by simp
  then have "1 / (2 * x) \<le> 1 / x - 1 / 2" by simp
  have "\<lfloor>1 / (2 * x)\<rfloor> < \<lfloor>1 / x\<rfloor>"
  proof -
    from one have f1: "1 \<le> \<lfloor>1 / x\<rfloor>" by (simp add: le_floor_iff)
    have "1 / x < real_of_int (\<lfloor>1 / x\<rfloor> + 1)" by linarith
    then have "(1 / x) / 2 < real_of_int (\<lfloor>1 / x\<rfloor> + 1) / 2"
      by (rule divide_strict_right_mono) simp
    also have "\<dots> \<le> real_of_int \<lfloor>1 / x\<rfloor>" using f1 by simp
    finally have "(1 / x) / 2 < real_of_int \<lfloor>1 / x\<rfloor>" .
    moreover have "1 / (2 * x) = (1 / x) / 2" by simp
    ultimately have "1 / (2 * x) < real_of_int \<lfloor>1 / x\<rfloor>" by (simp only:)
    then show ?thesis by (simp only: floor_less_iff)
  qed
  moreover from one have "1 \<le> \<lfloor>1 / x\<rfloor>" by (simp add: le_floor_iff)
  ultimately show "(2 * x, x) \<in> measure (\<lambda>x. nat \<lfloor>1 / x\<rfloor>)" by simp
qed

declare exponent_up.simps [simp del] exponent_down.simps [simp del]

definition pow2 :: "int \<Rightarrow> real" where
  "pow2 e = (if 0 \<le> e then 2 ^ nat e else 1 / 2 ^ nat (- e))"

definition round_half_even :: "real \<Rightarrow> int" where
  "round_half_even y =
     (let f = \<lfloor>y\<rfloor>; r = y - real_of_int f in
      if r < 1 / 2 then f else if 1 / 2 < r then f + 1 else if even f then f else f + 1)"

definition fl64 :: "real \<Rightarrow> real" where
  "fl64 x =
     (if x = 0 then 0
      else
        let e = max (- 1022) (if 1 \<le> \<bar>x\<bar> then exponent_up \<bar>x\<bar> else exponent_down \<bar>x\<bar>);
            ulp = pow2 (e - 52)
        in real_of_int (round_half_even (x / ulp)) * ulp)"

text \<open>\<^verbatim>\<open>find_nearest_onset\<close> with the result of each of its two subtractions passed
  through a rounding function \<open>fl\<close>: the identity gives the exact model above, \<open>fl64\<close>
  gives the program on float64 inputs.  \<^verbatim>\<open>abs\<close> and the comparisons are exact in
  float64.\<close>

definition candidates_fl ::
  "(real \<Rightarrow> real) \<Rightarrow> real list \<Rightarrow> int \<Rightarrow> real \<Rightarrow> real \<Rightarrow> (real \<times> int) list" where
  "candidates_fl fl onset_times i t window_s =
     [(\<bar>fl (onset_times ! nat j - t)\<bar>, j).
        j \<leftarrow> [i - 1, i, i + 1, i + 2],
        0 \<le> j \<and> j < int (length onset_times),
        \<bar>fl (onset_times ! nat j - t)\<bar> \<le> window_s]"

definition find_nearest_onset_fl ::
  "(real \<Rightarrow> real) \<Rightarrow> real list \<Rightarrow> int \<Rightarrow> real \<Rightarrow> real \<Rightarrow> real option \<times> int" where
  "find_nearest_onset_fl fl onset_times idx_hint t window_s =
     (if length onset_times = 0 then (None, idx_hint)
      else
        let i = advance_hint onset_times (max 0 idx_hint) (fl (t - window_s)) in
        case candidates_fl fl onset_times i t window_s of
          [] \<Rightarrow> (None, i)
        | c # cs \<Rightarrow>
            (let best_j = snd (min_by_key c cs)
             in (Some (onset_times ! nat best_j), best_j)))"

fun run_queries_fl ::
  "(real \<Rightarrow> real) \<Rightarrow> real list \<Rightarrow> real \<Rightarrow> int \<Rightarrow> real list \<Rightarrow> (real option \<times> int) list" where
  "run_queries_fl fl onset_times window_s idx_hint [] = []"
| "run_queries_fl fl onset_times window_s idx_hint (t # ts) =
     (let r = find_nearest_onset_fl fl onset_times idx_hint t window_s
      in r # run_queries_fl fl onset_times window_s (snd r) ts)"

text \<open>Proof device for the matcher: what holds of a hint \<open>h\<close> at query time \<open>t\<close>.
  Every onset below the hint is either left of the window or strictly farther from the
  query time than the onset at the hint.\<close>

definition hint_ok :: "real list \<Rightarrow> real \<Rightarrow> int \<Rightarrow> real \<Rightarrow> bool" where
  "hint_ok os w h t \<longleftrightarrow>
     0 \<le> h \<and> (h = 0 \<or> h < int (length os)) \<and>
     (\<forall>j. 0 \<le> j \<and> j < h \<longrightarrow>
        os ! nat j < t - w \<or> \<bar>os ! nat h - t\<bar> < \<bar>os ! nat j - t\<bar>)"

text \<open>The specification's reference for the matcher, written from its words ("the
  brute-force nearest onset within the window"): the onsets within the tolerance window
  of a query time, and what it means for a result to be a nearest one among them.\<close>

definition onsets_in_window :: "real list \<Rightarrow> real \<Rightarrow> real \<Rightarrow> real list" where
  "onsets_in_window os t w = filter (\<lambda>x. \<bar>x - t\<bar> \<le> w) os"

definition brute_force_nearest :: "real list \<Rightarrow> real \<Rightarrow> real \<Rightarrow> real option \<Rightarrow> bool" where
  "brute_force_nearest os t w r \<longleftrightarrow>
     (case r of
        None \<Rightarrow> onsets_in_window os t w = []
      | Some m \<Rightarrow> m \<in> set (onsets_in_window os t w) \<and>
          (\<forall>x \<in> set (onsets_in_window os t w). \<bar>m - t\<bar> \<le> \<bar>x - t\<bar>))"

subsection \<open>Median and slope estimator: \<^verbatim>\<open>robust_slope_s_per_beat\<close> (lines 170 to 184)\<close>

text \<open>\<^verbatim>\<open>np.median\<close>: the middle element of the sorted array, the mean of the two middle
  elements for an even size, and \<^verbatim>\<open>nan\<close> (here \<open>None\<close>) for the empty array.\<close>

definition np_median :: "real list \<Rightarrow> real option" where
  "np_median xs =
     (let s = sort xs; n = length s in
      if n = 0 then None
      else if odd n then Some (s ! (n div 2))
      else Some ((s ! (n div 2 - 1) + s ! (n div 2)) / 2))"

text \<open>\<^verbatim>\<open>y - np.median(y)\<close>.  The median is \<open>None\<close> only for the empty array, and
  subtracting a scalar from the empty array gives the empty array.\<close>

definition center :: "real list \<Rightarrow> real list" where
  "center ys = (case np_median ys of None \<Rightarrow> [] | Some m \<Rightarrow> map (\<lambda>v. v - m) ys)"

text \<open>\<^verbatim>\<open>np.dot\<close> of two one-dimensional arrays raises \<^verbatim>\<open>ValueError\<close> when their
  sizes differ.\<close>

datatype error = ValueError

definition np_dot :: "real list \<Rightarrow> real list \<Rightarrow> error + real" where
  "np_dot xs ys =
     (if length xs = length ys then Inr (sum_list (map2 (*) xs ys)) else Inl ValueError)"

definition robust_slope_s_per_beat :: "int list \<Rightarrow> real list \<Rightarrow> error + real" where
  "robust_slope_s_per_beat beat_indices errors_s =
     (let x = map real_of_int beat_indices; y = errors_s in
      if length x < 6 then Inr 0
      else
        let x0 = center x; y0 = center y in
        case np_dot x0 x0 of
          Inl e \<Rightarrow> Inl e
        | Inr denom \<Rightarrow>
            if denom \<le> 1 / 10 ^ 12 then Inr 0
            else (case np_dot x0 y0 of Inl e \<Rightarrow> Inl e | Inr num \<Rightarrow> Inr (num / denom)))"

subsection \<open>Phase selector: \<^verbatim>\<open>choose_best_phase\<close> (lines 187 to 236)\<close>

text \<open>The state of the inner \<^verbatim>\<open>while t <= cand_t0 + search_seconds\<close> loop.\<close>

record phase_scan_state =
  ps_onset_idx_hint :: int
  ps_beat_idx :: int
  ps_t :: real
  ps_errs :: "real list"
  ps_matches :: int

text \<open>The inner loop may fail to return when the interval is not positive, so its
  result is an option; \<open>phase_scan_returns\<close> below shows that it returns under the guard
  of \<^verbatim>\<open>choose_best_phase\<close>.\<close>

partial_function (option) phase_scan ::
  "real list \<Rightarrow> real \<Rightarrow> real \<Rightarrow> real \<Rightarrow> real \<Rightarrow> phase_scan_state \<Rightarrow> phase_scan_state option"
where
  "phase_scan ot match_window_s cand_t0 search_seconds ival ps =
     (if ps_t ps \<le> cand_t0 + search_seconds then
        (case find_nearest_onset ot (ps_onset_idx_hint ps) (ps_t ps) match_window_s of
           (m, hint') \<Rightarrow>
             phase_scan ot match_window_s cand_t0 search_seconds ival
               ((case m of
                   None \<Rightarrow> ps
                 | Some v \<Rightarrow> ps\<lparr>ps_matches := ps_matches ps + 1,
                                ps_errs := ps_errs ps @ [v - ps_t ps]\<rparr>)
                \<lparr>ps_onset_idx_hint := hint',
                 ps_beat_idx := ps_beat_idx ps + 1,
                 ps_t := cand_t0 + real_of_int (ps_beat_idx ps + 1) * ival\<rparr>))
      else Some ps)"

declare phase_scan.simps [code]

text \<open>The best candidate so far; \<open>best_med_abs_err = None\<close> is \<^verbatim>\<open>float("inf")\<close>.\<close>

record phase_best =
  best_t0 :: real
  best_matches :: int
  best_med_abs_err :: "real option"

text \<open>\<open><\<close> on floats extended by \<^verbatim>\<open>inf\<close> (\<open>None\<close>).\<close>

definition ext_less :: "real option \<Rightarrow> real option \<Rightarrow> bool" where
  "ext_less a b =
     (case a of None \<Rightarrow> False | Some x \<Rightarrow> (case b of None \<Rightarrow> True | Some y \<Rightarrow> x < y))"

text \<open>The loop \<^verbatim>\<open>for k in range(phase_divisions)\<close> over the list of the values of
  \<open>k\<close>.  \<^verbatim>\<open>med_abs_err\<close> is the median of the absolute errors, and \<^verbatim>\<open>inf\<close> for an
  empty error list, which is where \<open>np_median\<close> gives \<open>None\<close>.\<close>

fun phase_loop ::
  "real list \<Rightarrow> real \<Rightarrow> real \<Rightarrow> real \<Rightarrow> real \<Rightarrow> int \<Rightarrow> nat list \<Rightarrow> phase_best \<Rightarrow> phase_best option"
where
  "phase_loop ot match_window_s seed_t0 ival search_seconds divs [] pb = Some pb"
| "phase_loop ot match_window_s seed_t0 ival search_seconds divs (k # ks) pb =
     (let cand_t0 = seed_t0 + (real k / real_of_int divs) * ival in
      case phase_scan ot match_window_s cand_t0 search_seconds ival
             \<lparr>ps_onset_idx_hint = 0, ps_beat_idx = 0, ps_t = cand_t0,
              ps_errs = [], ps_matches = 0\<rparr> of
        None \<Rightarrow> None
      | Some ps \<Rightarrow>
          if ps_matches ps = 0 then
            phase_loop ot match_window_s seed_t0 ival search_seconds divs ks pb
          else
            let med_abs_err = np_median (map abs (ps_errs ps)) in
            if ps_matches ps > best_matches pb \<or>
               (ps_matches ps = best_matches pb \<and> ext_less med_abs_err (best_med_abs_err pb))
            then phase_loop ot match_window_s seed_t0 ival search_seconds divs ks
                   \<lparr>best_t0 = cand_t0, best_matches = ps_matches ps,
                    best_med_abs_err = med_abs_err\<rparr>
            else phase_loop ot match_window_s seed_t0 ival search_seconds divs ks pb)"

definition choose_best_phase ::
  "real \<Rightarrow> real \<Rightarrow> real list \<Rightarrow> real \<Rightarrow> real \<Rightarrow> int \<Rightarrow> real option" where
  "choose_best_phase seed_t0 ival onset_times match_window_s search_seconds phase_divs =
     (if length onset_times = 0 \<or> ival \<le> 1 / 10 ^ 6 then Some seed_t0
      else
        let divs = max 1 phase_divs;
            secs = max 3 search_seconds;
            end_t = seed_t0 + secs;
            ot = filter (\<lambda>x. max 0 (seed_t0 - 1 / 2) \<le> x \<and> x \<le> end_t + 1 / 2) onset_times
        in if length ot = 0 then Some seed_t0
           else map_option best_t0
                  (phase_loop ot match_window_s seed_t0 ival secs divs [0..<nat divs]
                     \<lparr>best_t0 = seed_t0, best_matches = - 1, best_med_abs_err = None\<rparr>))"

subsection \<open>The simulation: \<^verbatim>\<open>analyze_mode_a\<close> (lines 277 to 387)\<close>

record config =
  match_window_ms :: real
  decision_window :: int
  min_matches :: int
  persist :: int
  offset_threshold_ms :: real
  drift_slope_ms_per_beat :: real
  bpm_min_change :: real
  phase_divisions :: int
  phase_search_seconds :: real
  min_gap_ms :: real
  max_points :: int

text \<open>The local variables of the simulation loop; \<open>t_grid\<close> is the variable \<^verbatim>\<open>t\<close>.\<close>

record sim_state =
  bpm :: real
  interval :: real
  t0 :: real
  points :: "(real \<times> real) list"
  last_point_time :: real
  err_q :: "real list"
  idx_q :: "int list"
  onset_idx_hint :: int
  eval_streak_offset :: int
  eval_streak_drift :: int
  beat_idx :: int
  t_grid :: real

definition window_s :: "config \<Rightarrow> real" where
  "window_s c = match_window_ms c / 1000"

text \<open>\<^verbatim>\<open>deque(maxlen=max(8, int(decision_window)))\<close> and its \<^verbatim>\<open>append\<close>: the element
  is added on the right and, if the size then exceeds \<^verbatim>\<open>maxlen\<close>, the leftmost element
  is dropped.\<close>

definition window_maxlen :: "config \<Rightarrow> nat" where
  "window_maxlen c = nat (max 8 (decision_window c))"

definition deque_append :: "nat \<Rightarrow> 'a list \<Rightarrow> 'a \<Rightarrow> 'a list" where
  "deque_append maxlen q x = (let q' = q @ [x] in if length q' > maxlen then tl q' else q')"

text \<open>Lines 329 to 332.\<close>

definition record_match :: "config \<Rightarrow> real option \<Rightarrow> sim_state \<Rightarrow> sim_state" where
  "record_match c matched s =
     (case matched of
        None \<Rightarrow> s
      | Some m \<Rightarrow>
          s\<lparr>err_q := deque_append (window_maxlen c) (err_q s) (m - t_grid s),
            idx_q := deque_append (window_maxlen c) (idx_q s) (beat_idx s)\<rparr>)"

text \<open>\<^verbatim>\<open>anchor_time = matched if matched is not None else (t + med_e)\<close>; the median is
  \<^verbatim>\<open>nan\<close> (\<open>None\<close>) for an empty window, and so is then the anchor time.\<close>

definition anchor_time :: "real option \<Rightarrow> real option \<Rightarrow> sim_state \<Rightarrow> real option" where
  "anchor_time matched med_e s =
     (case matched of Some m \<Rightarrow> Some m | None \<Rightarrow> map_option (\<lambda>e. t_grid s + e) med_e)"

text \<open>The anti-spam check \<^verbatim>\<open>(anchor_time - last_point_time) * 1000.0 >= min_gap_ms\<close>,
  false for a \<^verbatim>\<open>nan\<close> anchor.\<close>

definition gap_ok :: "config \<Rightarrow> sim_state \<Rightarrow> real option \<Rightarrow> bool" where
  "gap_ok c s anchor =
     (case anchor of None \<Rightarrow> False | Some a \<Rightarrow> min_gap_ms c \<le> (a - last_point_time s) * 1000)"

text \<open>Lines 358 to 369 (with the new tempo) and 373 to 382 (with the tempo unchanged):
  what an accepted emission does to the state.\<close>

definition emit_drift :: "real \<Rightarrow> real \<Rightarrow> sim_state \<Rightarrow> sim_state" where
  "emit_drift a new_bpm s =
     s\<lparr>bpm := new_bpm,
       interval := 60 / new_bpm,
       t0 := a - real_of_int (beat_idx s) * (60 / new_bpm),
       points := points s @ [(a, new_bpm)],
       last_point_time := a,
       err_q := [], idx_q := [],
       eval_streak_drift := 0, eval_streak_offset := 0\<rparr>"

definition emit_jump :: "real \<Rightarrow> sim_state \<Rightarrow> sim_state" where
  "emit_jump a s =
     s\<lparr>t0 := a - real_of_int (beat_idx s) * interval s,
       points := points s @ [(a, bpm s)],
       last_point_time := a,
       err_q := [], idx_q := [],
       eval_streak_drift := 0, eval_streak_offset := 0\<rparr>"

text \<open>Lines 352 to 382: the \<^verbatim>\<open>if eval_streak_drift >= persist: ... elif
  eval_streak_offset >= persist: ...\<close> statement.\<close>

definition act :: "config \<Rightarrow> real option \<Rightarrow> real option \<Rightarrow> real \<Rightarrow> sim_state \<Rightarrow> sim_state" where
  "act c matched med_e slope s =
     (if persist c \<le> eval_streak_drift s then
        let new_interval = interval s + slope;
            new_bpm = (if new_interval > 1 / 10 ^ 4 then 60 / new_interval else bpm s)
        in if bpm_min_change c \<le> \<bar>new_bpm - bpm s\<bar> then
             (case anchor_time matched med_e s of
                None \<Rightarrow> s
              | Some a \<Rightarrow> if gap_ok c s (Some a) then emit_drift a new_bpm s else s)
           else s
      else if persist c \<le> eval_streak_offset s then
        (case anchor_time matched med_e s of
           None \<Rightarrow> s
         | Some a \<Rightarrow> if gap_ok c s (Some a) then emit_jump a s else s)
      else s)"

text \<open>Lines 338 to 350: the two conditions and the update of the persistence
  counters.\<close>

definition is_drift :: "config \<Rightarrow> real \<Rightarrow> bool" where
  "is_drift c slope \<longleftrightarrow> drift_slope_ms_per_beat c \<le> \<bar>slope * 1000\<bar>"

definition is_jump :: "config \<Rightarrow> real option \<Rightarrow> real \<Rightarrow> bool" where
  "is_jump c med_e slope \<longleftrightarrow>
     (case med_e of None \<Rightarrow> False | Some m \<Rightarrow> offset_threshold_ms c \<le> \<bar>m * 1000\<bar>) \<and>
     \<bar>slope * 1000\<bar> < drift_slope_ms_per_beat c * (6 / 10)"

definition count_streaks :: "config \<Rightarrow> real option \<Rightarrow> real \<Rightarrow> sim_state \<Rightarrow> sim_state" where
  "count_streaks c med_e slope s =
     s\<lparr>eval_streak_drift := (if is_drift c slope then eval_streak_drift s + 1 else 0),
       eval_streak_offset := (if is_jump c med_e slope then eval_streak_offset s + 1 else 0)\<rparr>"

text \<open>Lines 334 to 382: the classifier, run when the window holds at least
  \<^verbatim>\<open>min_matches\<close> entries.\<close>

definition classify :: "config \<Rightarrow> real option \<Rightarrow> sim_state \<Rightarrow> error + sim_state" where
  "classify c matched s =
     (if min_matches c \<le> int (length (err_q s)) then
        let med_e = np_median (err_q s) in
        case robust_slope_s_per_beat (idx_q s) (err_q s) of
          Inl e \<Rightarrow> Inl e
        | Inr slope \<Rightarrow> Inr (act c matched med_e slope (count_streaks c med_e slope s))
      else Inr s)"

text \<open>Lines 384 and 385.\<close>

definition next_beat :: "sim_state \<Rightarrow> sim_state" where
  "next_beat s =
     s\<lparr>beat_idx := beat_idx s + 1,
       t_grid := t0 s + real_of_int (beat_idx s + 1) * interval s\<rparr>"

text \<open>One iteration of the loop of line 326.\<close>

definition beat_step :: "config \<Rightarrow> real list \<Rightarrow> sim_state \<Rightarrow> error + sim_state" where
  "beat_step c onset_times s =
     (case find_nearest_onset onset_times (onset_idx_hint s) (t_grid s) (window_s c) of
        (matched, hint') \<Rightarrow>
          (case classify c matched (record_match c matched (s\<lparr>onset_idx_hint := hint'\<rparr>)) of
             Inl e \<Rightarrow> Inl e
           | Inr s' \<Rightarrow> Inr (next_beat s')))"

definition loop_guard :: "config \<Rightarrow> real \<Rightarrow> sim_state \<Rightarrow> bool" where
  "loop_guard c duration s \<longleftrightarrow> t_grid s \<le> duration \<and> int (length (points s)) < max_points c"

text \<open>The loops of lines 322 and 326.  A result \<open>None\<close> is a loop that does not return;
  \<open>Some (Inl e)\<close> is an exception.\<close>

partial_function (option) skip_negative :: "sim_state \<Rightarrow> sim_state option" where
  "skip_negative s = (if t_grid s < 0 then skip_negative (next_beat s) else Some s)"

declare skip_negative.simps [code]

partial_function (option) sim_loop ::
  "config \<Rightarrow> real list \<Rightarrow> real \<Rightarrow> sim_state \<Rightarrow> (error + sim_state) option" where
  "sim_loop c onset_times duration s =
     (if loop_guard c duration s then
        (case beat_step c onset_times s of
           Inl e \<Rightarrow> Some (Inl e)
         | Inr s' \<Rightarrow> sim_loop c onset_times duration s')
      else Some (Inr s))"

declare sim_loop.simps [code]

text \<open>Lines 308 to 320.\<close>

definition init_state :: "real \<Rightarrow> real \<Rightarrow> sim_state" where
  "init_state a b =
     \<lparr>bpm = b, interval = 60 / b, t0 = a, points = [(a, b)], last_point_time = a,
      err_q = [], idx_q = [], onset_idx_hint = 0,
      eval_streak_offset = 0, eval_streak_drift = 0, beat_idx = 0, t_grid = a\<rparr>"

text \<open>Lines 290 to 293: \<^verbatim>\<open>np.argmin\<close> gives the first index of the least value.\<close>

fun argmin_scan :: "real list \<Rightarrow> nat \<Rightarrow> nat \<Rightarrow> real \<Rightarrow> nat" where
  "argmin_scan [] i best_i best_v = best_i"
| "argmin_scan (x # xs) i best_i best_v =
     (if x < best_v then argmin_scan xs (i + 1) i x else argmin_scan xs (i + 1) best_i best_v)"

definition snap_anchor :: "real list \<Rightarrow> real \<Rightarrow> real \<Rightarrow> real" where
  "snap_anchor onset_times win a =
     (case map (\<lambda>x. \<bar>x - a\<bar>) onset_times of
        [] \<Rightarrow> a
      | d # ds \<Rightarrow>
          (let j0 = argmin_scan ds 1 0 d
           in if \<bar>onset_times ! j0 - a\<bar> \<le> win * (5 / 2) then onset_times ! j0 else a))"

text \<open>The tempo fallback of lines 281 and 282 (every real is finite).\<close>

definition effective_bpm :: "real \<Rightarrow> real" where
  "effective_bpm seed_bpm = (if seed_bpm \<le> 1 / 10 ^ 6 then 120 else seed_bpm)"

text \<open>The core, from the onset times, the seed tempo, the seed anchor and the duration
  to the result \<^verbatim>\<open>(points, bpm)\<close>.\<close>

definition analyze_core ::
  "config \<Rightarrow> real list \<Rightarrow> real \<Rightarrow> real \<Rightarrow> real \<Rightarrow> (error + (real \<times> real) list \<times> real) option"
where
  "analyze_core c raw_onset_times seed_bpm seed_anchor duration =
     (let onset_times = sort raw_onset_times;
          b = effective_bpm seed_bpm;
          a1 = snap_anchor onset_times (window_s c) seed_anchor
      in case choose_best_phase a1 (60 / b) onset_times (window_s c)
                (phase_search_seconds c) (phase_divisions c) of
           None \<Rightarrow> None
         | Some a2 \<Rightarrow>
             (case skip_negative (init_state a2 b) of
                None \<Rightarrow> None
              | Some s1 \<Rightarrow>
                  (case sim_loop c onset_times duration s1 of
                     None \<Rightarrow> None
                   | Some (Inl e) \<Rightarrow> Some (Inl e)
                   | Some (Inr s) \<Rightarrow> Some (Inr (points s, bpm s)))))"

text \<open>The states at the head of the simulation loop, for a run that starts from the
  refined anchor \<open>a\<close> and the tempo \<open>b\<close>.\<close>

inductive sim_reachable ::
  "config \<Rightarrow> real list \<Rightarrow> real \<Rightarrow> real \<Rightarrow> real \<Rightarrow> sim_state \<Rightarrow> bool"
  for c :: config and onset_times :: "real list" and duration :: real and a :: real and b :: real
where
  start: "skip_negative (init_state a b) = Some s \<Longrightarrow> sim_reachable c onset_times duration a b s"
| step: "sim_reachable c onset_times duration a b s \<Longrightarrow> loop_guard c duration s \<Longrightarrow>
         beat_step c onset_times s = Inr s' \<Longrightarrow> sim_reachable c onset_times duration a b s'"

subsection \<open>Invariants of the simulation loop\<close>

text \<open>The grid: the tempo is positive, the interval is \<open>60 / bpm\<close>, and the grid time
  is the time of the current beat.\<close>

definition grid_ok :: "sim_state \<Rightarrow> bool" where
  "grid_ok s \<longleftrightarrow>
     0 < bpm s \<and> interval s = 60 / bpm s \<and>
     t_grid s = t0 s + real_of_int (beat_idx s) * interval s"

text \<open>The timing points: there is a first point, \<^verbatim>\<open>last_point_time\<close> is the time of
  the last one, and consecutive points are at least \<^verbatim>\<open>min_gap_ms\<close> milliseconds
  apart.\<close>

definition points_ok :: "config \<Rightarrow> sim_state \<Rightarrow> bool" where
  "points_ok c s \<longleftrightarrow>
     points s \<noteq> [] \<and> last_point_time s = fst (last (points s)) \<and>
     successively (\<lambda>p q. min_gap_ms c \<le> (fst q - fst p) * 1000) (points s)"

text \<open>The rolling window: both deques have the same length, at most the capacity, and
  the beat indices are strictly increasing and below the current beat index.\<close>

definition window_ok :: "config \<Rightarrow> sim_state \<Rightarrow> bool" where
  "window_ok c s \<longleftrightarrow>
     length (err_q s) = length (idx_q s) \<and> length (idx_q s) \<le> window_maxlen c \<and>
     sorted_wrt (<) (idx_q s) \<and> list_all (\<lambda>i. i < beat_idx s) (idx_q s)"

text \<open>What decreases in the simulation loop: the number of points that may still be
  added, then the number of beats up to the duration.\<close>

definition points_left :: "config \<Rightarrow> sim_state \<Rightarrow> nat" where
  "points_left c s = nat (max_points c - int (length (points s)))"

definition beats_left :: "real \<Rightarrow> sim_state \<Rightarrow> nat" where
  "beats_left duration s = nat (\<lfloor>(duration - t_grid s) / interval s\<rfloor> + 1)"

text \<open>A beat without an emission leaves the grid and the points as they are; a beat
  with an emission appends one point that passed the anti-spam check, and clears the
  window and both counters.\<close>

definition quiet_beat :: "sim_state \<Rightarrow> sim_state \<Rightarrow> bool" where
  "quiet_beat s s' \<longleftrightarrow>
     bpm s' = bpm s \<and> interval s' = interval s \<and> t0 s' = t0 s \<and>
     points s' = points s \<and> last_point_time s' = last_point_time s"

definition emitting_beat :: "config \<Rightarrow> sim_state \<Rightarrow> sim_state \<Rightarrow> bool" where
  "emitting_beat c s s' \<longleftrightarrow>
     (\<exists>a. gap_ok c s (Some a) \<and> points s' = points s @ [(a, bpm s')] \<and>
        last_point_time s' = a \<and> (bpm s' = bpm s \<or> 0 < bpm s') \<and>
        (bpm s' = bpm s \<and> interval s' = interval s \<or> interval s' = 60 / bpm s') \<and>
        err_q s' = [] \<and> idx_q s' = [] \<and>
        eval_streak_drift s' = 0 \<and> eval_streak_offset s' = 0)"

definition sim_inv :: "config \<Rightarrow> sim_state \<Rightarrow> bool" where
  "sim_inv c s \<longleftrightarrow>
     grid_ok s \<and> points_ok c s \<and> window_ok c s \<and>
     int (length (points s)) \<le> max 1 (max_points c)"

subsection \<open>Example inputs\<close>

text \<open>A configuration with the program's default thresholds, with \<^verbatim>\<open>min_matches\<close>,
  \<^verbatim>\<open>persist\<close>, \<^verbatim>\<open>phase_divisions\<close> and \<^verbatim>\<open>phase_search_seconds\<close> lowered so that
  a run of two beats reaches the classifier.\<close>

definition example_config :: config where
  "example_config =
     \<lparr>match_window_ms = 40, decision_window = 24, min_matches = 1, persist = 1,
      offset_threshold_ms = 18, drift_slope_ms_per_beat = 12 / 10, bpm_min_change = 35 / 100,
      phase_divisions = 1, phase_search_seconds = 3, min_gap_ms = 600, max_points = 200\<rparr>"

text \<open>The run with one onset at 1.03 s, tempo 60 and anchor 0: the state of the second
  beat (beat index 1, grid time 1 s) after its match, 30 ms late, has been recorded.\<close>

definition example_beat :: sim_state where
  "example_beat =
     \<lparr>bpm = 60, interval = 1, t0 = 0, points = [(0, 60)], last_point_time = 0,
      err_q = [3 / 100], idx_q = [1], onset_idx_hint = 0,
      eval_streak_offset = 0, eval_streak_drift = 0, beat_idx = 1, t_grid = 1\<rparr>"

text \<open>A run of six beats whose onsets are late by 10 ms plus 1 ms per beat, with the
  classifier kept off by \<^verbatim>\<open>min_matches = 14\<close>, and the state it ends in.\<close>

definition affine_onsets :: "real list" where
  "affine_onsets =
     [1 / 100, 1 + 11 / 1000, 2 + 12 / 1000, 3 + 13 / 1000, 4 + 14 / 1000, 5 + 15 / 1000]"

definition affine_window_state :: sim_state where
  "affine_window_state =
     \<lparr>bpm = 60, interval = 1, t0 = 0, points = [(0, 60)], last_point_time = 0,
      err_q = [1 / 100, 11 / 1000, 12 / 1000, 13 / 1000, 14 / 1000, 15 / 1000],
      idx_q = [0, 1, 2, 3, 4, 5], onset_idx_hint = 5,
      eval_streak_offset = 0, eval_streak_drift = 0, beat_idx = 6, t_grid = 6\<rparr>"

text \<open>A configuration with \<^verbatim>\<open>decision_window = 4\<close>, and the state after five matched
  beats of a run with onsets on every beat.\<close>

definition small_window_config :: config where
  "small_window_config = example_config\<lparr>decision_window := 4, min_matches := 14\<rparr>"

definition small_window_state :: sim_state where
  "small_window_state =
     \<lparr>bpm = 60, interval = 1, t0 = 0, points = [(0, 60)], last_point_time = 0,
      err_q = [0, 0, 0, 0, 0], idx_q = [0, 1, 2, 3, 4], onset_idx_hint = 4,
      eval_streak_offset = 0, eval_streak_drift = 0, beat_idx = 5, t_grid = 5\<rparr>"

section \<open>Onset matcher: the hint and the match\<close>

subsection \<open>The scan and the candidate list\<close>

lemma advance_hint_ge: "i \<le> advance_hint os i b"
proof (induction os i b rule: advance_hint.induct)
  case (1 os i b)
  show ?case
  proof (cases "i + 1 < int (length os) \<and> os ! nat i < b")
    case True
    with "1.IH" have "i + 1 \<le> advance_hint os (i + 1) b" by simp
    with True show ?thesis by (simp add: advance_hint.simps [of os i b])
  next
    case False
    then show ?thesis by (auto simp: advance_hint.simps [of os i b])
  qed
qed

lemma advance_hint_lt: "i < int (length os) \<Longrightarrow> advance_hint os i b < int (length os)"
proof (induction os i b rule: advance_hint.induct)
  case (1 os i b)
  show ?case
  proof (cases "i + 1 < int (length os) \<and> os ! nat i < b")
    case True
    with "1.IH" have "advance_hint os (i + 1) b < int (length os)" by simp
    with True show ?thesis by (simp add: advance_hint.simps [of os i b])
  next
    case False
    with "1.prems" show ?thesis by (auto simp: advance_hint.simps [of os i b])
  qed
qed

lemma advance_hint_skipped:
  "i \<le> j \<Longrightarrow> j < advance_hint os i b \<Longrightarrow> os ! nat j < b"
proof (induction os i b rule: advance_hint.induct)
  case (1 os i b)
  show ?case
  proof (cases "i + 1 < int (length os) \<and> os ! nat i < b")
    case True
    show ?thesis
    proof (cases "j = i")
      case True
      with \<open>i + 1 < int (length os) \<and> os ! nat i < b\<close> show ?thesis by simp
    next
      case False
      with "1.prems" True have "i + 1 \<le> j" "j < advance_hint os (i + 1) b"
        by (simp_all add: advance_hint.simps [of os i b])
      with "1.IH" True show ?thesis by simp
    qed
  next
    case False
    with "1.prems" show ?thesis by (auto simp: advance_hint.simps [of os i b])
  qed
qed

lemma advance_hint_stop:
  "advance_hint os i b + 1 < int (length os) \<Longrightarrow> b \<le> os ! nat (advance_hint os i b)"
proof (induction os i b rule: advance_hint.induct)
  case (1 os i b)
  show ?case
  proof (cases "i + 1 < int (length os) \<and> os ! nat i < b")
    case True
    with "1.prems" "1.IH" show ?thesis by (simp add: advance_hint.simps [of os i b])
  next
    case False
    with "1.prems" show ?thesis by (auto simp: advance_hint.simps [of os i b])
  qed
qed

lemma advance_hint_stay: "b \<le> os ! nat i \<Longrightarrow> advance_hint os i b = i"
  by (simp add: advance_hint.simps [of os i b])

lemma candidates_alt:
  "candidates os i t w =
     map (\<lambda>j. (\<bar>os ! nat j - t\<bar>, j))
       (filter (\<lambda>j. 0 \<le> j \<and> j < int (length os) \<and> \<bar>os ! nat j - t\<bar> \<le> w)
          [i - 1, i, i + 1, i + 2])"
  unfolding candidates_def by simp

lemma candidates_iff:
  "(d, j) \<in> set (candidates os i t w) \<longleftrightarrow>
     (i - 1 \<le> j \<and> j \<le> i + 2 \<and> 0 \<le> j \<and> j < int (length os)
      \<and> d = \<bar>os ! nat j - t\<bar> \<and> d \<le> w)"
  unfolding candidates_alt set_map set_filter by auto

lemma candidates_ordered: "sorted_wrt (\<lambda>a b. snd a < snd b) (candidates os i t w)"
proof -
  have "sorted_wrt (<) [i - 1, i, i + 1, i + 2]" by simp
  then have "sorted_wrt (<)
      (filter (\<lambda>j. 0 \<le> j \<and> j < int (length os) \<and> \<bar>os ! nat j - t\<bar> \<le> w)
          [i - 1, i, i + 1, i + 2])"
    by (rule sorted_wrt_filter)
  then show ?thesis unfolding candidates_alt by (simp add: sorted_wrt_map del: filter.simps)
qed

lemma min_by_key_first_least:
  "sorted_wrt (\<lambda>a b. snd a < snd b) (best # cs) \<Longrightarrow>
   min_by_key best cs \<in> set (best # cs) \<and>
   (\<forall>x \<in> set (best # cs). fst (min_by_key best cs) \<le> fst x \<and>
      (snd x < snd (min_by_key best cs) \<longrightarrow> fst (min_by_key best cs) < fst x))"
proof (induction cs arbitrary: best)
  case Nil
  then show ?case by simp
next
  case (Cons c cs)
  let ?b = "if fst c < fst best then c else best"
  let ?r = "min_by_key ?b cs"
  from Cons.prems have "sorted_wrt (\<lambda>a b. snd a < snd b) (?b # cs)" by auto
  from Cons.IH [OF this] have r: "?r \<in> set (?b # cs)"
    and least: "\<And>x. x \<in> set (?b # cs) \<Longrightarrow> fst ?r \<le> fst x \<and> (snd x < snd ?r \<longrightarrow> fst ?r < fst x)"
    by blast+
  have eq: "min_by_key best (c # cs) = ?r" by simp
  from Cons.prems have bc: "snd best < snd c" and bcs: "\<forall>x \<in> set cs. snd best < snd x"
    by auto
  show ?case
  proof (cases "fst c < fst best")
    case True
    from least [of c] True have "fst ?r \<le> fst c" by simp
    with True have "fst ?r < fst best" by simp
    with r least True show ?thesis unfolding eq by auto
  next
    case False
    from least [of best] False
    have lb: "fst ?r \<le> fst best" "snd best < snd ?r \<longrightarrow> fst ?r < fst best" by simp_all
    have "fst ?r \<le> fst c" using lb False by simp
    moreover have "snd c < snd ?r \<longrightarrow> fst ?r < fst c"
      using lb bc False by auto
    ultimately show ?thesis using r least False unfolding eq by auto
  qed
qed

lemma hint_ok_start: "hint_ok os w 0 t"
  by (simp add: hint_ok_def)

lemma sorted_nth_int:
  "sorted os \<Longrightarrow> 0 \<le> j \<Longrightarrow> j \<le> k \<Longrightarrow> k < int (length os) \<Longrightarrow> os ! nat j \<le> os ! nat k"
  by (rule sorted_nth_mono) auto

lemma hint_ok_later:
  assumes "sorted os" and ok: "hint_ok os w h t" and "t \<le> t'"
  shows "hint_ok os w h t'"
  unfolding hint_ok_def
proof (intro conjI allI impI)
  from ok show "0 \<le> h" "h = 0 \<or> h < int (length os)" by (simp_all add: hint_ok_def)
next
  fix j assume j: "0 \<le> j \<and> j < h"
  with ok have hn: "h < int (length os)" by (auto simp: hint_ok_def)
  with j \<open>sorted os\<close> have le: "os ! nat j \<le> os ! nat h" by (simp add: sorted_nth_int)
  from ok j have "os ! nat j < t - w \<or> \<bar>os ! nat h - t\<bar> < \<bar>os ! nat j - t\<bar>"
    by (simp add: hint_ok_def)
  with le \<open>t \<le> t'\<close>
  show "os ! nat j < t' - w \<or> \<bar>os ! nat h - t'\<bar> < \<bar>os ! nat j - t'\<bar>"
    by linarith
qed

lemma find_nearest_onset_empty: "find_nearest_onset [] h t w = (None, h)"
  by (simp add: find_nearest_onset_def)

lemma find_nearest_onset_none:
  "os \<noteq> [] \<Longrightarrow> candidates os (advance_hint os (max 0 h) (t - w)) t w = [] \<Longrightarrow>
   find_nearest_onset os h t w = (None, advance_hint os (max 0 h) (t - w))"
  by (simp add: find_nearest_onset_def)

lemma find_nearest_onset_some:
  "os \<noteq> [] \<Longrightarrow> candidates os (advance_hint os (max 0 h) (t - w)) t w = c # cs \<Longrightarrow>
   find_nearest_onset os h t w =
     (Some (os ! nat (snd (min_by_key c cs))), snd (min_by_key c cs))"
  by (simp add: find_nearest_onset_def Let_def)

text \<open>What the scan establishes below the index it stops at.\<close>

lemma scan_left_of_window:
  assumes srt: "sorted os" and ok: "hint_ok os w h t" and ne: "os \<noteq> []"
    and r: "r = advance_hint os (max 0 h) (t - w)"
    and j: "0 \<le> j" "j < r"
  shows "os ! nat j < t - w \<or> (r = h \<and> \<bar>os ! nat h - t\<bar> < \<bar>os ! nat j - t\<bar>)"
proof -
  from ok have h0: "0 \<le> h" and hn: "h < int (length os)" using ne
    by (auto simp: hint_ok_def)
  then have r': "r = advance_hint os h (t - w)" using r by simp
  show ?thesis
  proof (cases "h \<le> j")
    case True
    with j r' show ?thesis by (auto dest: advance_hint_skipped)
  next
    case False
    then have jh: "j < h" by simp
    show ?thesis
    proof (cases "r = h")
      case True
      with ok j jh show ?thesis by (auto simp: hint_ok_def)
    next
      case False
      with advance_hint_ge [of h os "t - w"] r' have "h < r" by simp
      with r' have "os ! nat h < t - w" using advance_hint_skipped [of h h os "t - w"] by simp
      moreover from srt j jh hn have "os ! nat j \<le> os ! nat h" by (simp add: sorted_nth_int)
      ultimately show ?thesis by simp
    qed
  qed
qed

lemma scan_bounds:
  assumes ok: "hint_ok os w h t" and ne: "os \<noteq> []"
    and r: "r = advance_hint os (max 0 h) (t - w)"
  shows "h \<le> r" "0 \<le> r" "r < int (length os)"
proof -
  from ok have h0: "0 \<le> h" and hn: "h < int (length os)" using ne
    by (auto simp: hint_ok_def)
  then have r': "r = advance_hint os h (t - w)" using r by simp
  from r' show "h \<le> r" by (simp add: advance_hint_ge)
  with h0 show "0 \<le> r" by simp
  from r' hn show "r < int (length os)" by (simp add: advance_hint_lt)
qed

lemma find_nearest_onset_step:
  assumes srt: "sorted os" and ok: "hint_ok os w h t"
  shows "h \<le> snd (find_nearest_onset os h t w) \<and>
         hint_ok os w (snd (find_nearest_onset os h t w)) t"
proof (cases "os = []")
  case True
  with ok show ?thesis by (simp add: find_nearest_onset_empty)
next
  case ne: False
  define r where "r = advance_hint os (max 0 h) (t - w)"
  note rb = scan_bounds [OF ok ne r_def]
  note left = scan_left_of_window [OF srt ok ne r_def]
  show ?thesis
  proof (cases "candidates os r t w")
    case Nil
    then have res: "find_nearest_onset os h t w = (None, r)"
      using ne by (simp add: find_nearest_onset_none r_def)
    have "hint_ok os w r t"
      unfolding hint_ok_def
    proof (intro conjI allI impI)
      show "0 \<le> r" "r = 0 \<or> r < int (length os)" using rb by simp_all
    next
      fix j assume j: "0 \<le> j \<and> j < r"
      with left [of j] show "os ! nat j < t - w \<or> \<bar>os ! nat r - t\<bar> < \<bar>os ! nat j - t\<bar>"
        by auto
    qed
    with rb res show ?thesis by simp
  next
    case (Cons c cs)
    define b where "b = min_by_key c cs"
    have res: "find_nearest_onset os h t w = (Some (os ! nat (snd b)), snd b)"
      using ne Cons by (simp add: find_nearest_onset_some r_def b_def)
    have "sorted_wrt (\<lambda>a b. snd a < snd b) (c # cs)"
      using candidates_ordered [of os r t w] Cons by simp
    from min_by_key_first_least [OF this]
    have bin: "b \<in> set (candidates os r t w)"
      and least: "\<And>x. x \<in> set (candidates os r t w) \<Longrightarrow>
                    fst b \<le> fst x \<and> (snd x < snd b \<longrightarrow> fst b < fst x)"
      unfolding b_def Cons by blast+
    from bin have "(fst b, snd b) \<in> set (candidates os r t w)" by simp
    then have bj: "r - 1 \<le> snd b" "snd b \<le> r + 2" "0 \<le> snd b" "snd b < int (length os)"
      and db: "fst b = \<bar>os ! nat (snd b) - t\<bar>" "fst b \<le> w"
      unfolding candidates_iff by simp_all
    have r_cand: "\<bar>os ! nat r - t\<bar> \<le> w \<Longrightarrow> fst b \<le> \<bar>os ! nat r - t\<bar>"
    proof -
      assume "\<bar>os ! nat r - t\<bar> \<le> w"
      with rb have "(\<bar>os ! nat r - t\<bar>, r) \<in> set (candidates os r t w)"
        by (simp add: candidates_iff)
      from least [OF this] show ?thesis by simp
    qed
    have below: "os ! nat j < t - w \<or> fst b < \<bar>os ! nat j - t\<bar>"
      if j: "0 \<le> j" "j < snd b" for j
    proof (cases "\<bar>os ! nat j - t\<bar> \<le> w")
      case False
      with db show ?thesis by simp
    next
      case inw: True
      show ?thesis
      proof (cases "r - 1 \<le> j")
        case True
        with j bj inw have "(\<bar>os ! nat j - t\<bar>, j) \<in> set (candidates os r t w)"
          by (simp add: candidates_iff)
        from least [OF this] j show ?thesis by simp
      next
        case False
        with j have "j < r" by simp
        from left [OF j(1) this] show ?thesis
        proof
          assume "os ! nat j < t - w" then show ?thesis ..
        next
          assume a: "r = h \<and> \<bar>os ! nat h - t\<bar> < \<bar>os ! nat j - t\<bar>"
          with inw have "\<bar>os ! nat r - t\<bar> \<le> w" by simp
          from r_cand [OF this] a show ?thesis by simp
        qed
      qed
    qed
    have "hint_ok os w (snd b) t"
      unfolding hint_ok_def using bj below db by auto
    moreover have "h \<le> snd b"
    proof (rule ccontr)
      assume "\<not> h \<le> snd b"
      with bj rb have rh: "r = h" and sb: "snd b = h - 1" and "0 \<le> h - 1" by simp_all
      from ok sb bj have
        "os ! nat (snd b) < t - w \<or> \<bar>os ! nat h - t\<bar> < \<bar>os ! nat (snd b) - t\<bar>"
        unfolding hint_ok_def by (metis diff_add_cancel less_add_one)
      then show False
      proof
        assume "os ! nat (snd b) < t - w"
        with db show False by simp
      next
        assume a: "\<bar>os ! nat h - t\<bar> < \<bar>os ! nat (snd b) - t\<bar>"
        with db rh have "\<bar>os ! nat r - t\<bar> \<le> w" by simp
        from r_cand [OF this] a db rh show False by simp
      qed
    qed
    ultimately show ?thesis using res by simp
  qed
qed

lemma hints_non_decreasing:
  assumes srt: "sorted os"
  shows "sorted (t # ts) \<Longrightarrow> hint_ok os w h t \<Longrightarrow>
         sorted (h # map snd (run_queries os w h (t # ts)))"
proof (induction ts arbitrary: h t)
  case Nil
  from find_nearest_onset_step [OF srt Nil(2)] show ?case by simp
next
  case (Cons u ts)
  let ?h' = "snd (find_nearest_onset os h t w)"
  from find_nearest_onset_step [OF srt Cons.prems(2)]
  have le: "h \<le> ?h'" and ok': "hint_ok os w ?h' t" by simp_all
  from Cons.prems(1) have "t \<le> u" and su: "sorted (u # ts)" by simp_all
  from hint_ok_later [OF srt ok' \<open>t \<le> u\<close>] have "hint_ok os w ?h' u" .
  from Cons.IH [OF su this]
  have "sorted (?h' # map snd (run_queries os w ?h' (u # ts)))" .
  with le show ?case by (auto simp: Let_def)
qed

subsection \<open>Comparison with the brute-force nearest onset\<close>

lemma in_window_iff:
  "x \<in> set (onsets_in_window os t w) \<longleftrightarrow>
     (\<exists>k. 0 \<le> k \<and> k < int (length os) \<and> x = os ! nat k \<and> \<bar>os ! nat k - t\<bar> \<le> w)"
proof
  assume "x \<in> set (onsets_in_window os t w)"
  then obtain n where "n < length os" "os ! n = x" "\<bar>x - t\<bar> \<le> w"
    by (auto simp: onsets_in_window_def in_set_conv_nth)
  then have "0 \<le> int n \<and> int n < int (length os) \<and> x = os ! nat (int n)
      \<and> \<bar>os ! nat (int n) - t\<bar> \<le> w" by simp
  then show "\<exists>k. 0 \<le> k \<and> k < int (length os) \<and> x = os ! nat k \<and> \<bar>os ! nat k - t\<bar> \<le> w" ..
next
  assume "\<exists>k. 0 \<le> k \<and> k < int (length os) \<and> x = os ! nat k \<and> \<bar>os ! nat k - t\<bar> \<le> w"
  then obtain k where "0 \<le> k" "k < int (length os)" "x = os ! nat k" "\<bar>os ! nat k - t\<bar> \<le> w"
    by blast
  then show "x \<in> set (onsets_in_window os t w)"
    by (simp add: onsets_in_window_def)
qed

lemma four_in_window:
  assumes srt: "sorted os" and a: "0 \<le> a" "a + 3 \<le> k" "k < int (length os)"
    and wa: "\<bar>os ! nat a - t\<bar> \<le> w" and wk: "\<bar>os ! nat k - t\<bar> \<le> w"
  shows "4 \<le> length (onsets_in_window os t w)"
proof -
  let ?S = "{i. i < length os \<and> \<bar>os ! i - t\<bar> \<le> w}"
  have mid: "\<bar>os ! nat j - t\<bar> \<le> w" if "a \<le> j" "j \<le> k" for j
  proof -
    from srt a that have "os ! nat a \<le> os ! nat j" "os ! nat j \<le> os ! nat k"
      by (simp_all add: sorted_nth_int)
    with wa wk show ?thesis by linarith
  qed
  have "{nat a, nat a + 1, nat a + 2, nat a + 3} \<subseteq> ?S"
  proof -
    have "nat a + d < length os \<and> \<bar>os ! (nat a + d) - t\<bar> \<le> w" if "d \<le> 3" for d
    proof -
      have eq: "nat a + d = nat (a + int d)" using a by simp
      from mid [of "a + int d"] that a show ?thesis unfolding eq by simp
    qed
    from this [of 0] this [of 1] this [of 2] this [of 3] show ?thesis by simp
  qed
  then have "card {nat a, nat a + 1, nat a + 2, nat a + 3} \<le> card ?S"
    by (rule card_mono [rotated]) simp
  moreover have "card {nat a, nat a + 1, nat a + 2, nat a + 3} = 4" by simp
  ultimately show ?thesis
    by (simp add: onsets_in_window_def length_filter_conv_card)
qed

lemma scan_stop_in_window:
  assumes srt: "sorted os" and ok: "hint_ok os w h t" and ne: "os \<noteq> []"
    and r: "r = advance_hint os (max 0 h) (t - w)"
    and k: "0 \<le> k" "k < int (length os)" "\<bar>os ! nat k - t\<bar> \<le> w"
  shows "\<bar>os ! nat r - t\<bar> \<le> w"
proof (cases "k < r")
  case True
  from scan_left_of_window [OF srt ok ne r k(1) True] k(3) show ?thesis by auto
next
  case False
  note rb = scan_bounds [OF ok ne r]
  from srt rb False k have le: "os ! nat r \<le> os ! nat k" by (simp add: sorted_nth_int)
  show ?thesis
  proof (cases "r + 1 < int (length os)")
    case True
    from ok ne have "max 0 h = h" by (simp add: hint_ok_def)
    with True r have "t - w \<le> os ! nat r" using advance_hint_stop [of os h "t - w"] by simp
    with le k(3) show ?thesis by linarith
  next
    case False
    with \<open>\<not> k < r\<close> k(2) have "k = r" by simp
    with k(3) show ?thesis by simp
  qed
qed

lemma find_nearest_onset_exact:
  assumes srt: "sorted os" and ok: "hint_ok os w h t"
    and few: "length (onsets_in_window os t w) \<le> 3"
  shows "brute_force_nearest os t w (fst (find_nearest_onset os h t w))"
proof (cases "os = []")
  case True
  then show ?thesis
    by (simp add: find_nearest_onset_empty brute_force_nearest_def onsets_in_window_def)
next
  case ne: False
  define r where "r = advance_hint os (max 0 h) (t - w)"
  note rb = scan_bounds [OF ok ne r_def]
  note left = scan_left_of_window [OF srt ok ne r_def]
  note stop = scan_stop_in_window [OF srt ok ne r_def]
  show ?thesis
  proof (cases "candidates os r t w")
    case Nil
    then have res: "find_nearest_onset os h t w = (None, r)"
      using ne by (simp add: find_nearest_onset_none r_def)
    have "set (onsets_in_window os t w) = {}"
    proof (rule ccontr)
      assume "set (onsets_in_window os t w) \<noteq> {}"
      then obtain k where "0 \<le> k" "k < int (length os)" "\<bar>os ! nat k - t\<bar> \<le> w"
        unfolding ex_in_conv [symmetric] in_window_iff by blast
      from stop [OF this] rb have "(\<bar>os ! nat r - t\<bar>, r) \<in> set (candidates os r t w)"
        by (simp add: candidates_iff)
      with Nil show False by simp
    qed
    with res show ?thesis by (simp add: brute_force_nearest_def)
  next
    case (Cons c cs)
    define b where "b = min_by_key c cs"
    have res: "find_nearest_onset os h t w = (Some (os ! nat (snd b)), snd b)"
      using ne Cons by (simp add: find_nearest_onset_some r_def b_def)
    have "sorted_wrt (\<lambda>a b. snd a < snd b) (c # cs)"
      using candidates_ordered [of os r t w] Cons by simp
    from min_by_key_first_least [OF this]
    have bin: "b \<in> set (candidates os r t w)"
      and least: "\<And>x. x \<in> set (candidates os r t w) \<Longrightarrow> fst b \<le> fst x"
      unfolding b_def Cons by blast+
    from bin have "(fst b, snd b) \<in> set (candidates os r t w)" by simp
    then have bj: "r - 1 \<le> snd b" "snd b \<le> r + 2" "0 \<le> snd b" "snd b < int (length os)"
      and db: "fst b = \<bar>os ! nat (snd b) - t\<bar>" "fst b \<le> w"
      unfolding candidates_iff by simp_all
    have min: "fst b \<le> \<bar>os ! nat k - t\<bar>"
      if k: "0 \<le> k" "k < int (length os)" "\<bar>os ! nat k - t\<bar> \<le> w" for k
    proof -
      note rw = stop [OF k]
      from rw rb have "(\<bar>os ! nat r - t\<bar>, r) \<in> set (candidates os r t w)"
        by (simp add: candidates_iff)
      from least [OF this] have br: "fst b \<le> \<bar>os ! nat r - t\<bar>" by simp
      consider "k < r - 1" | "r - 1 \<le> k" "k \<le> r + 2" | "r + 3 \<le> k" by linarith
      then show ?thesis
      proof cases
        case 1
        then have "k < r" by simp
        from left [OF k(1) this] k(3) br show ?thesis by auto
      next
        case 2
        with k have "(\<bar>os ! nat k - t\<bar>, k) \<in> set (candidates os r t w)"
          by (simp add: candidates_iff)
        from least [OF this] show ?thesis by simp
      next
        case 3
        from four_in_window [OF srt rb(2) 3 k(2) rw k(3)] few show ?thesis by simp
      qed
    qed
    have "os ! nat (snd b) \<in> set (onsets_in_window os t w)"
      unfolding in_window_iff using bj db by auto
    moreover have "\<forall>x \<in> set (onsets_in_window os t w). \<bar>os ! nat (snd b) - t\<bar> \<le> \<bar>x - t\<bar>"
    proof
      fix x assume "x \<in> set (onsets_in_window os t w)"
      then obtain k where "0 \<le> k" "k < int (length os)" "\<bar>os ! nat k - t\<bar> \<le> w"
        and "x = os ! nat k"
        unfolding in_window_iff by blast
      with min [of k] db show "\<bar>os ! nat (snd b) - t\<bar> \<le> \<bar>x - t\<bar>" by simp
    qed
    ultimately show ?thesis using res by (simp add: brute_force_nearest_def)
  qed
qed

lemma run_queries_exact:
  assumes srt: "sorted os"
  shows "sorted (t # ts) \<Longrightarrow> hint_ok os w h t \<Longrightarrow>
         \<forall>u \<in> set (t # ts). length (onsets_in_window os u w) \<le> 3 \<Longrightarrow>
         list_all2 (\<lambda>u r. brute_force_nearest os u w (fst r)) (t # ts)
           (run_queries os w h (t # ts))"
proof (induction ts arbitrary: h t)
  case Nil
  from find_nearest_onset_exact [OF srt Nil(2)] Nil(3) show ?case by simp
next
  case (Cons u ts)
  let ?h' = "snd (find_nearest_onset os h t w)"
  from find_nearest_onset_step [OF srt Cons.prems(2)]
  have ok': "hint_ok os w ?h' t" by simp
  from Cons.prems(1) have "t \<le> u" and su: "sorted (u # ts)" by simp_all
  from hint_ok_later [OF srt ok' \<open>t \<le> u\<close>] have "hint_ok os w ?h' u" .
  from Cons.IH [OF su this] Cons.prems(3)
  have "list_all2 (\<lambda>u r. brute_force_nearest os u w (fst r)) (u # ts)
           (run_queries os w ?h' (u # ts))" by simp
  moreover from find_nearest_onset_exact [OF srt Cons.prems(2)] Cons.prems(3)
  have "brute_force_nearest os t w (fst (find_nearest_onset os h t w))" by simp
  ultimately show ?case by (simp add: Let_def)
qed


lemma matcher_run_1: "find_nearest_onset [1, 2, 4, 7] 0 1 (1 / 2) = (Some 1, 0)"
  by (simp add: find_nearest_onset_def advance_hint.simps candidates_def)

lemma matcher_run_2: "find_nearest_onset [1, 2, 4, 7] 0 (5 / 2) (1 / 2) = (Some 2, 1)"
  by (simp add: find_nearest_onset_def advance_hint.simps candidates_def)

lemma matcher_run_3: "find_nearest_onset [1, 2, 4, 7] 1 5 (1 / 2) = (None, 3)"
  by (simp add: find_nearest_onset_def advance_hint.simps candidates_def)

lemma matcher_run_4: "find_nearest_onset [1, 2, 4, 7] 3 (13 / 2) (1 / 2) = (Some 7, 3)"
  by (simp add: find_nearest_onset_def advance_hint.simps candidates_def)

lemma matcher_run:
  "run_queries [1, 2, 4, 7] (1 / 2) 0 [1, 5 / 2, 5, 13 / 2] =
     [(Some 1, 0), (Some 2, 1), (None, 3), (Some 7, 3)]"
  by (simp add: matcher_run_1 matcher_run_2 matcher_run_3 matcher_run_4)

lemma matcher_dense: "find_nearest_onset [0, 1, 2, 3] 0 3 3 = (Some 2, 2)"
  by (simp add: find_nearest_onset_def advance_hint.simps candidates_def)

text \<open>
  Claim C1, as stated: for sorted onsets, a non-negative window and increasing query
  times, every call returns the nearest onset among all onsets within the window.  It
  fails where more onsets lie within the window than the four indices the matcher
  examines: with onsets at 0, 1, 2 and 3 seconds and a window of 3 seconds, the first
  query, at 3 seconds, returns the onset at 2 seconds, although the onset at 3 seconds is
  within the window at distance 0.
\<close>

theorem find_nearest_onset_not_nearest_counterexample:
  "sorted [0, 1, 2, 3 :: real] \<and> (0 :: real) \<le> 3 \<and> sorted [3 :: real] \<and>
   run_queries [0, 1, 2, 3] 3 0 [3] = [(Some 2, 2)] \<and>
   \<not> brute_force_nearest [0, 1, 2, 3] 3 3 (Some 2)"
  by (simp add: matcher_dense brute_force_nearest_def onsets_in_window_def)

text \<open>
  Claim C1, amended: for every sorted onset sequence, every tolerance window and every
  monotonically increasing sequence of query times issued with the hint threaded from
  call to call starting at 0, such that at most three onsets lie within the window of
  each query time, each call of \<open>find_nearest_onset\<close> returns an onset of minimum
  absolute distance to the query time among all onsets within the window, and \<open>None\<close>
  exactly when no onset lies within the window.
\<close>

theorem find_nearest_onset_nearest_when_sparse:
  assumes "sorted os" and "sorted ts"
    and "list_all (\<lambda>t. length (onsets_in_window os t w) \<le> 3) ts"
  shows "list_all2 (\<lambda>t r. brute_force_nearest os t w (fst r)) ts (run_queries os w 0 ts)"
proof (cases ts)
  case Nil
  then show ?thesis by simp
next
  case (Cons t ts')
  from assms(3) have "\<forall>u \<in> set ts. length (onsets_in_window os u w) \<le> 3"
    by (simp add: list_all_iff)
  with Cons assms(2) run_queries_exact [OF assms(1), of t ts' w 0] show ?thesis
    by (simp add: hint_ok_start)
qed

theorem find_nearest_onset_nearest_when_sparse_witness:
  "sorted [1, 2, 4, 7 :: real] \<and> sorted [1, 5 / 2, 5, 13 / 2 :: real] \<and>
   list_all (\<lambda>t. length (onsets_in_window [1, 2, 4, 7] t (1 / 2)) \<le> 3)
     [1, 5 / 2, 5, 13 / 2] \<and>
   list_all2 (\<lambda>t r. brute_force_nearest [1, 2, 4, 7] t (1 / 2) (fst r))
     [1, 5 / 2, 5, 13 / 2] (run_queries [1, 2, 4, 7] (1 / 2) 0 [1, 5 / 2, 5, 13 / 2])"
proof -
  have h1: "sorted [1, 2, 4, 7 :: real]" by simp
  have h2: "sorted [1, 5 / 2, 5, 13 / 2 :: real]" by simp
  have h3: "list_all (\<lambda>t. length (onsets_in_window [1, 2, 4, 7] t (1 / 2)) \<le> 3)
      [1, 5 / 2, 5, 13 / 2]"
    by (simp add: onsets_in_window_def)
  show ?thesis
    by (intro conjI h1 h2 h3 find_nearest_onset_nearest_when_sparse [OF h1 h2 h3])
qed

subsection \<open>The hint under rounding\<close>

lemma candidates_fl_exact: "candidates_fl (\<lambda>x. x) = candidates"
  by (intro ext) (simp add: candidates_fl_def candidates_def)

lemma find_nearest_onset_fl_exact: "find_nearest_onset_fl (\<lambda>x. x) = find_nearest_onset"
  by (intro ext) (simp add: find_nearest_onset_fl_def find_nearest_onset_def candidates_fl_exact)

lemma run_queries_fl_exact: "run_queries_fl (\<lambda>x. x) os w h ts = run_queries os w h ts"
  by (induction ts arbitrary: h) (simp_all add: find_nearest_onset_fl_exact)

lemma candidates_fl_index:
  "(d, j) \<in> set (candidates_fl fl os i t w) \<Longrightarrow> i - 1 \<le> j"
  by (auto simp: candidates_fl_def split: if_splits)

lemma min_by_key_mem: "min_by_key best cs \<in> set (best # cs)"
proof (induction cs arbitrary: best)
  case Nil
  show ?case by simp
next
  case (Cons c cs)
  from Cons.IH [of "if fst c < fst best then c else best"] show ?case by auto
qed

lemma find_nearest_onset_fl_back_one: "h - 1 \<le> snd (find_nearest_onset_fl fl os h t w)"
proof (cases "os = []")
  case True
  then show ?thesis by (simp add: find_nearest_onset_fl_def)
next
  case ne: False
  define r where "r = advance_hint os (max 0 h) (fl (t - w))"
  have hr: "h \<le> r" using advance_hint_ge [of "max 0 h" os "fl (t - w)"] by (simp add: r_def)
  show ?thesis
  proof (cases "candidates_fl fl os r t w")
    case Nil
    with ne hr show ?thesis by (simp add: find_nearest_onset_fl_def r_def [symmetric])
  next
    case (Cons c cs)
    have "min_by_key c cs \<in> set (candidates_fl fl os r t w)"
      unfolding Cons by (rule min_by_key_mem)
    then have "(fst (min_by_key c cs), snd (min_by_key c cs)) \<in> set (candidates_fl fl os r t w)"
      by simp
    then have "r - 1 \<le> snd (min_by_key c cs)" by (rule candidates_fl_index)
    with ne hr Cons show ?thesis
      by (simp add: find_nearest_onset_fl_def r_def [symmetric] Let_def)
  qed
qed

lemma run_queries_fl_back_one:
  "successively (\<lambda>h h'. h - 1 \<le> h') (h # map snd (run_queries_fl fl os w h ts))"
proof (induction ts arbitrary: h)
  case Nil
  show ?case by simp
next
  case (Cons t ts)
  from Cons.IH [of "snd (find_nearest_onset_fl fl os h t w)"]
    find_nearest_onset_fl_back_one [of h fl os t w]
  show ?case by (simp add: Let_def)
qed

lemmas fl64_simps = fl64_def exponent_down.simps exponent_up.simps pow2_def
  round_half_even_def Let_def

lemma float_run_1:
  "find_nearest_onset_fl fl64 [0, 1 / 2 ^ 60] 0 (1 / 2 ^ 60) 1 = (Some (1 / 2 ^ 60), 1)"
  by (simp add: find_nearest_onset_fl_def candidates_fl_def advance_hint.simps fl64_simps)

lemma float_run_2:
  "find_nearest_onset_fl fl64 [0, 1 / 2 ^ 60] 1 1 1 = (Some 0, 0)"
  by (simp add: find_nearest_onset_fl_def candidates_fl_def advance_hint.simps fl64_simps)

lemma float_run:
  "run_queries_fl fl64 [0, 1 / 2 ^ 60] 1 0 [1 / 2 ^ 60, 1] = [(Some (1 / 2 ^ 60), 1), (Some 0, 0)]"
  by (simp only: run_queries_fl.simps Let_def float_run_1 snd_conv float_run_2)

text \<open>
  Claim C5, as stated: within a monotonically increasing sequence of query times, with
  the hint threaded from call to call starting at 0, the hint returned by every call is
  greater than or equal to the hint passed in.  It fails in float64 where two distinct
  onsets round to the same distance from the query: with onsets at \<open>0\<close> and
  \<^verbatim>\<open>2^-60\<close> seconds and a window of 1 second, the query at \<^verbatim>\<open>2^-60\<close> returns hint 1,
  and the next query, at 1 second, computes the distance 1 for both onsets
  (\<^verbatim>\<open>2^-60 - 1\<close> rounds to \<open>-1\<close>), so that \<^verbatim>\<open>min\<close> takes the first candidate and
  the hint returned is 0.
\<close>

theorem find_nearest_onset_hint_regresses_in_float64_counterexample:
  "sorted [0, 1 / 2 ^ 60 :: real] \<and> sorted [1 / 2 ^ 60, 1 :: real] \<and>
   run_queries_fl fl64 [0, 1 / 2 ^ 60] 1 0 [1 / 2 ^ 60, 1]
     = [(Some (1 / 2 ^ 60), 1), (Some 0, 0)] \<and>
   \<not> sorted (0 # map snd [(Some (1 / 2 ^ 60 :: real), 1 :: int), (Some 0, 0)])"
proof -
  have "sorted [0, 1 / 2 ^ 60 :: real]" "sorted [1 / 2 ^ 60, 1 :: real]"
    "\<not> sorted (0 # map snd [(Some (1 / 2 ^ 60 :: real), 1 :: int), (Some 0, 0)])"
    by simp_all
  with float_run show ?thesis by (intro conjI)
qed

text \<open>
  Claim C5, amended: for every call of \<open>find_nearest_onset\<close> made within a sequence of
  query times with the hint threaded from call to call starting at 0, whatever the
  rounding of the two subtractions, the hint returned is at least the hint passed in
  minus one (the match may be the onset just below the scan position); and when the
  subtractions are exact, the onsets sorted and the query times monotonically
  increasing, the hint returned is greater than or equal to the hint passed in.
\<close>

theorem find_nearest_onset_hint_steps:
  "successively (\<lambda>h h'. h - 1 \<le> h') (0 # map snd (run_queries_fl fl os w 0 ts)) \<and>
   (sorted os \<and> sorted ts \<longrightarrow> sorted (0 # map snd (run_queries_fl (\<lambda>x. x) os w 0 ts)))"
proof (intro conjI impI)
  show "successively (\<lambda>h h'. h - 1 \<le> h') (0 # map snd (run_queries_fl fl os w 0 ts))"
    by (rule run_queries_fl_back_one)
next
  assume a: "sorted os \<and> sorted ts"
  show "sorted (0 # map snd (run_queries_fl (\<lambda>x. x) os w 0 ts))"
  proof (cases ts)
    case Nil
    then show ?thesis by simp
  next
    case (Cons t ts')
    with a hints_non_decreasing [of os t ts' w 0] show ?thesis
      by (simp add: hint_ok_start run_queries_fl_exact)
  qed
qed

theorem find_nearest_onset_hint_steps_witness:
  "sorted [1, 2, 4, 7 :: real] \<and> sorted [1, 5 / 2, 5, 13 / 2 :: real] \<and>
   sorted (0 # map snd (run_queries_fl (\<lambda>x. x) [1, 2, 4, 7] (1 / 2) 0 [1, 5 / 2, 5, 13 / 2])) \<and>
   successively (\<lambda>h h'. h - 1 \<le> h')
     (0 # map snd (run_queries_fl fl64 [0, 1 / 2 ^ 60] 1 0 [1 / 2 ^ 60, 1]))"
proof -
  have h1: "sorted [1, 2, 4, 7 :: real]" by simp
  have h2: "sorted [1, 5 / 2, 5, 13 / 2 :: real]" by simp
  show ?thesis
    by (intro conjI h1 h2
        find_nearest_onset_hint_steps [THEN conjunct2, THEN mp, OF conjI [OF h1 h2]]
        find_nearest_onset_hint_steps [THEN conjunct1])
qed

section \<open>Median and slope estimator\<close>

lemma sort_affine_up:
  assumes "0 \<le> (b::real)"
  shows "sort (map (\<lambda>x. a + b * x) xs) = map (\<lambda>x. a + b * x) (sort xs)"
proof (rule properties_for_sort)
  show "mset (map (\<lambda>x. a + b * x) (sort xs)) = mset (map (\<lambda>x. a + b * x) xs)" by simp
  have "sorted_wrt (\<lambda>x y. a + b * x \<le> a + b * y) (sort xs)"
    by (rule sorted_wrt_mono_rel [of _ "(\<le>)"]) (auto simp: assms mult_left_mono)
  then show "sorted (map (\<lambda>x. a + b * x) (sort xs))" by (simp add: sorted_map)
qed

lemma sort_affine_down:
  assumes "(b::real) \<le> 0"
  shows "sort (map (\<lambda>x. a + b * x) xs) = rev (map (\<lambda>x. a + b * x) (sort xs))"
proof (rule properties_for_sort)
  show "mset (rev (map (\<lambda>x. a + b * x) (sort xs))) = mset (map (\<lambda>x. a + b * x) xs)" by simp
  have "sorted_wrt (\<lambda>x y. a + b * y \<le> a + b * x) (sort xs)"
    by (rule sorted_wrt_mono_rel [of _ "(\<le>)"]) (auto simp: assms mult_left_mono_neg)
  then show "sorted (rev (map (\<lambda>x. a + b * x) (sort xs)))"
    by (simp add: sorted_wrt_rev sorted_wrt_map)
qed

lemma sort_eq_Nil_iff: "sort xs = [] \<longleftrightarrow> xs = []"
  by (metis length_sort length_0_conv)

lemma np_median_Nil: "np_median [] = None"
  by (simp add: np_median_def)

lemma np_median_odd:
  "odd (length xs) \<Longrightarrow> np_median xs = Some (sort xs ! (length xs div 2))"
  by (auto simp: np_median_def Let_def sort_eq_Nil_iff)

lemma np_median_even:
  "even (length xs) \<Longrightarrow> xs \<noteq> [] \<Longrightarrow>
   np_median xs = Some ((sort xs ! (length xs div 2 - 1) + sort xs ! (length xs div 2)) / 2)"
  by (simp add: np_median_def Let_def sort_eq_Nil_iff)

lemma np_median_None_iff: "np_median xs = None \<longleftrightarrow> xs = []"
proof (cases "xs = []")
  case True
  then show ?thesis by (simp add: np_median_Nil)
next
  case False
  then show ?thesis by (cases "odd (length xs)") (simp_all add: np_median_odd np_median_even)
qed

text \<open>The two middle positions of the sorted array, under an affine map.\<close>

lemma sort_affine_middle:
  fixes a b :: real
  defines "f \<equiv> \<lambda>x. a + b * x"
  assumes ne: "xs \<noteq> []"
  shows "odd (length xs) \<Longrightarrow>
           sort (map f xs) ! (length xs div 2) = f (sort xs ! (length xs div 2))"
    and "even (length xs) \<Longrightarrow>
           sort (map f xs) ! (length xs div 2 - 1) + sort (map f xs) ! (length xs div 2)
           = f (sort xs ! (length xs div 2 - 1)) + f (sort xs ! (length xs div 2))"
proof -
  let ?n = "length xs"
  from ne have n0: "0 < ?n" by simp
  then have h1: "?n div 2 < ?n" by simp
  then have h2: "?n div 2 - 1 < ?n" by arith
  have up: "sort (map f xs) ! i = f (sort xs ! i)" if "0 \<le> b" "i < ?n" for i
    using that unfolding f_def by (simp only: sort_affine_up nth_map length_sort)
  have down: "sort (map f xs) ! i = f (sort xs ! (?n - Suc i))" if "b \<le> 0" "i < ?n" for i
  proof -
    have "sort (map f xs) ! i = map f (sort xs) ! (length (map f (sort xs)) - Suc i)"
      using that unfolding f_def
      by (simp only: sort_affine_down rev_nth length_map length_sort)
    also have "\<dots> = f (sort xs ! (?n - Suc i))" using that by simp
    finally show ?thesis .
  qed
  {
    assume odd: "odd ?n"
    then have e: "?n - Suc (?n div 2) = ?n div 2" by (auto elim!: oddE)
    show "sort (map f xs) ! (?n div 2) = f (sort xs ! (?n div 2))"
    proof (cases "0 \<le> b")
      case True
      from up [OF True h1] show ?thesis .
    next
      case False
      then have "b \<le> 0" by simp
      from down [OF this h1] e show ?thesis by simp
    qed
  }
  {
    assume ev: "even ?n"
    with n0 have e1: "?n - Suc (?n div 2) = ?n div 2 - 1"
      and e2: "?n - Suc (?n div 2 - 1) = ?n div 2"
      by (auto elim!: evenE)
    show "sort (map f xs) ! (?n div 2 - 1) + sort (map f xs) ! (?n div 2)
           = f (sort xs ! (?n div 2 - 1)) + f (sort xs ! (?n div 2))"
    proof (cases "0 \<le> b")
      case True
      from up [OF True h1] up [OF True h2] show ?thesis by simp
    next
      case False
      then have "b \<le> 0" by simp
      from down [OF this h1] down [OF this h2] show ?thesis unfolding e1 e2 by simp
    qed
  }
qed

lemma np_median_affine:
  "np_median (map (\<lambda>x. a + b * x) xs) = map_option (\<lambda>m. a + b * m) (np_median xs)"
proof (cases "xs = []")
  case True
  then show ?thesis by (simp add: np_median_Nil)
next
  case ne: False
  note mid = sort_affine_middle [OF ne, of a b]
  show ?thesis
  proof (cases "odd (length xs)")
    case True
    have "np_median (map (\<lambda>x. a + b * x) xs)
        = Some (sort (map (\<lambda>x. a + b * x) xs) ! (length xs div 2))"
      using True np_median_odd [of "map (\<lambda>x. a + b * x) xs"] by simp
    also have "\<dots> = Some (a + b * (sort xs ! (length xs div 2)))"
      using mid(1) [OF True] by simp
    finally show ?thesis using True by (simp add: np_median_odd)
  next
    case False
    then have ev: "even (length xs)" by simp
    have "np_median (map (\<lambda>x. a + b * x) xs)
        = Some ((sort (map (\<lambda>x. a + b * x) xs) ! (length xs div 2 - 1)
                 + sort (map (\<lambda>x. a + b * x) xs) ! (length xs div 2)) / 2)"
      using ev ne np_median_even [of "map (\<lambda>x. a + b * x) xs"] by simp
    also have "\<dots> = Some (((a + b * (sort xs ! (length xs div 2 - 1)))
                 + (a + b * (sort xs ! (length xs div 2)))) / 2)"
      using mid(2) [OF ev] by simp
    also have "\<dots> = Some (a + b * ((sort xs ! (length xs div 2 - 1)
                 + sort xs ! (length xs div 2)) / 2))"
      by (simp add: algebra_simps add_divide_distrib)
    finally show ?thesis using ev ne by (simp add: np_median_even)
  qed
qed

lemma center_Nil: "center [] = []"
  by (simp add: center_def np_median_Nil)

lemma center_Some: "np_median xs = Some m \<Longrightarrow> center xs = map (\<lambda>v. v - m) xs"
  by (simp add: center_def)

lemma center_affine:
  "center (map (\<lambda>x. a + b * x) xs) = map (\<lambda>v. b * v) (center xs)"
proof (cases "np_median xs")
  case None
  then have "xs = []" by (simp add: np_median_None_iff)
  then show ?thesis by (simp add: center_Nil)
next
  case (Some m)
  then have "np_median (map (\<lambda>x. a + b * x) xs) = Some (a + b * m)"
    by (simp add: np_median_affine)
  then have "center (map (\<lambda>x. a + b * x) xs)
      = map (\<lambda>v. v - (a + b * m)) (map (\<lambda>x. a + b * x) xs)"
    by (rule center_Some)
  also have "\<dots> = map (\<lambda>v. b * v) (map (\<lambda>v. v - m) xs)" by (simp add: algebra_simps)
  also have "\<dots> = map (\<lambda>v. b * v) (center xs)" using Some by (simp add: center_Some)
  finally show ?thesis .
qed

lemma length_center: "length (center xs) = length xs"
proof (cases "np_median xs")
  case None
  then have "xs = []" by (simp add: np_median_None_iff)
  then show ?thesis by (simp add: center_Nil)
next
  case (Some m)
  then show ?thesis by (simp add: center_Some)
qed

lemma np_dot_self: "np_dot xs xs = Inr (sum_list (map (\<lambda>v. v * v) xs))"
  by (simp add: np_dot_def zip_same_conv_map comp_def)

lemma np_dot_scaled:
  "np_dot xs (map (\<lambda>v. b * v) xs) = Inr (b * sum_list (map (\<lambda>v. v * v) xs))"
proof -
  have "map2 (*) xs (map (\<lambda>v. b * v) xs) = map (\<lambda>v. b * (v * v)) xs"
    by (induction xs) simp_all
  then show ?thesis by (simp add: np_dot_def sum_list_const_mult)
qed

lemma sum_squares_two:
  fixes x y m :: real
  shows "(x - m) * (x - m) + (y - m) * (y - m)
     \<le> sum_list (map (\<lambda>v. v * v) (map (\<lambda>v. v - m) (x # y # zs)))"
proof -
  have "0 \<le> sum_list (map (\<lambda>v. v * v) (map (\<lambda>v. v - m) zs))"
    by (rule sum_list_nonneg) auto
  then show ?thesis by simp
qed

lemma denom_distinct:
  assumes "distinct idxs" and "2 \<le> length idxs"
  shows "1 / 2 \<le> sum_list (map (\<lambda>v. v * v) (center (map real_of_int idxs)))"
proof -
  from assms(2) obtain i j rest where idxs: "idxs = i # j # rest"
    by (cases idxs; cases "tl idxs") auto
  define x y zs where "x = real_of_int i" and "y = real_of_int j"
    and "zs = map real_of_int rest"
  have xs: "map real_of_int idxs = x # y # zs" by (simp add: idxs x_def y_def zs_def)
  from idxs assms(1) have "i \<noteq> j" by simp
  then have "1 \<le> \<bar>i - j\<bar>" by arith
  then have "1 \<le> real_of_int \<bar>i - j\<bar>" by (simp only: of_int_1_le_iff)
  then have one: "1 \<le> \<bar>x - y\<bar>" by (simp add: x_def y_def)
  then have "1 * 1 \<le> \<bar>x - y\<bar> * \<bar>x - y\<bar>"
    by (intro mult_mono) simp_all
  then have far: "1 \<le> (x - y) * (x - y)"
    by (simp only: abs_mult_self_eq mult_1)
  obtain m where m: "np_median (x # y # zs) = Some m"
    by (cases "np_median (x # y # zs)") (auto simp: np_median_None_iff)
  have "(x - y) * (x - y) \<le> 2 * ((x - m) * (x - m) + (y - m) * (y - m))"
  proof -
    have "0 \<le> (x + y - 2 * m) * (x + y - 2 * m)" by simp
    then show ?thesis by (simp add: algebra_simps)
  qed
  with far have "1 / 2 \<le> (x - m) * (x - m) + (y - m) * (y - m)" by simp
  also have "\<dots> \<le> sum_list (map (\<lambda>v. v * v) (map (\<lambda>v. v - m) (x # y # zs)))"
    by (rule sum_squares_two)
  also have "\<dots> = sum_list (map (\<lambda>v. v * v) (center (map real_of_int idxs)))"
    unfolding xs center_Some [OF m] ..
  finally show ?thesis .
qed

lemma robust_slope_affine:
  assumes "distinct idxs" and "6 \<le> length idxs"
  shows "robust_slope_s_per_beat idxs (map (\<lambda>i. a + b * real_of_int i) idxs) = Inr b"
proof -
  let ?x = "map real_of_int idxs"
  let ?d = "sum_list (map (\<lambda>v. v * v) (center ?x))"
  have "map (\<lambda>i. a + b * real_of_int i) idxs = map (\<lambda>x. a + b * x) ?x" by simp
  then have y: "center (map (\<lambda>i. a + b * real_of_int i) idxs) = map (\<lambda>v. b * v) (center ?x)"
    by (simp only: center_affine)
  from assms have "1 / 2 \<le> ?d" by (intro denom_distinct) simp_all
  then have d: "\<not> ?d \<le> 1 / 10 ^ 12" "?d \<noteq> 0" by simp_all
  have len: "\<not> length ?x < 6" using assms(2) by simp
  show ?thesis
    unfolding robust_slope_s_per_beat_def Let_def y np_dot_self np_dot_scaled
    using len d by simp
qed

lemma robust_slope_short:
  "length idxs < 6 \<Longrightarrow> robust_slope_s_per_beat idxs errs = Inr 0"
  by (simp add: robust_slope_s_per_beat_def)

lemma robust_slope_no_error:
  "length idxs = length errs \<Longrightarrow> \<exists>v. robust_slope_s_per_beat idxs errs = Inr v"
  by (simp add: robust_slope_s_per_beat_def Let_def np_dot_def length_center)

section \<open>The simulation loop\<close>

subsection \<open>The parts of one beat\<close>

lemma deque_append_length:
  "length q \<le> maxlen \<Longrightarrow> 0 < maxlen \<Longrightarrow> length (deque_append maxlen q x) \<le> maxlen"
  by (simp add: deque_append_def Let_def)

lemma deque_append_length_eq:
  "length q = length q' \<Longrightarrow>
   length (deque_append maxlen q x) = length (deque_append maxlen q' y)"
  by (simp add: deque_append_def Let_def)

lemma deque_append_below_capacity:
  "length q < maxlen \<Longrightarrow> deque_append maxlen q x = q @ [x]"
  by (simp add: deque_append_def Let_def)

lemma deque_append_at_capacity:
  "length q = maxlen \<Longrightarrow> 0 < maxlen \<Longrightarrow> deque_append maxlen q x = tl q @ [x]"
  by (cases q) (simp_all add: deque_append_def Let_def)

lemma deque_append_set: "set (deque_append maxlen q x) \<subseteq> insert x (set q)"
  by (cases q) (auto simp: deque_append_def Let_def)

lemma deque_append_sorted:
  assumes "sorted_wrt (<) q" and "list_all (\<lambda>i. i < x) q"
  shows "sorted_wrt (<) (deque_append maxlen q (x::int))"
proof -
  from assms have s: "sorted_wrt (<) (q @ [x])"
    by (simp add: sorted_wrt_append list_all_iff)
  then have "sorted_wrt (<) (tl (q @ [x]))" by (cases "q @ [x]") simp_all
  with s show ?thesis by (simp add: deque_append_def Let_def)
qed

lemma window_maxlen_pos: "8 \<le> window_maxlen c"
  by (simp add: window_maxlen_def)

lemma act_cases:
  "act c matched med_e slope s = s \<or>
   (\<exists>a. anchor_time matched med_e s = Some a \<and> gap_ok c s (Some a) \<and>
      (act c matched med_e slope s = emit_jump a s \<or>
       (\<exists>nb. act c matched med_e slope s = emit_drift a nb s \<and> (nb = bpm s \<or> 0 < nb))))"
proof (cases "anchor_time matched med_e s")
  case None
  then show ?thesis by (simp add: act_def Let_def)
next
  case (Some a)
  show ?thesis
  proof (cases "gap_ok c s (Some a)")
    case False
    with Some show ?thesis by (simp add: act_def Let_def)
  next
    case True
    let ?ni = "interval s + slope"
    let ?nb = "if ?ni > 1 / 10 ^ 4 then 60 / ?ni else bpm s"
    have nb: "?nb = bpm s \<or> 0 < ?nb" by simp
    consider (drift) "persist c \<le> eval_streak_drift s" "bpm_min_change c \<le> \<bar>?nb - bpm s\<bar>"
      | (nochange) "persist c \<le> eval_streak_drift s" "\<not> bpm_min_change c \<le> \<bar>?nb - bpm s\<bar>"
      | (jump) "\<not> persist c \<le> eval_streak_drift s" "persist c \<le> eval_streak_offset s"
      | (none) "\<not> persist c \<le> eval_streak_drift s" "\<not> persist c \<le> eval_streak_offset s"
      by blast
    then show ?thesis
    proof cases
      case drift
      with Some True have "act c matched med_e slope s = emit_drift a ?nb s"
        by (simp add: act_def Let_def)
      with Some True nb show ?thesis by blast
    next
      case nochange
      then show ?thesis by (simp add: act_def Let_def)
    next
      case jump
      with Some True have "act c matched med_e slope s = emit_jump a s"
        by (simp add: act_def Let_def)
      with Some True show ?thesis by blast
    next
      case none
      then show ?thesis by (simp add: act_def Let_def)
    qed
  qed
qed

lemma classify_Inr:
  assumes "classify c matched s = Inr s'"
  shows "s' = s \<or>
    (\<exists>slope. s' = act c matched (np_median (err_q s)) slope
                    (count_streaks c (np_median (err_q s)) slope s))"
  using assms by (auto simp: classify_def Let_def split: if_splits sum.splits)

lemma beat_step_Inr:
  assumes "beat_step c os s = Inr s'"
  shows "\<exists>matched h s2.
      find_nearest_onset os (onset_idx_hint s) (t_grid s) (window_s c) = (matched, h) \<and>
      classify c matched (record_match c matched (s\<lparr>onset_idx_hint := h\<rparr>)) = Inr s2 \<and>
      s' = next_beat s2"
  using assms by (auto simp: beat_step_def split: prod.splits sum.splits)

lemma act_effect:
  "(quiet_beat s (act c matched med_e slope s) \<and>
      err_q (act c matched med_e slope s) = err_q s \<and>
      idx_q (act c matched med_e slope s) = idx_q s \<and>
      eval_streak_drift (act c matched med_e slope s) = eval_streak_drift s \<and>
      eval_streak_offset (act c matched med_e slope s) = eval_streak_offset s)
   \<or> emitting_beat c s (act c matched med_e slope s)"
  using act_cases [of c matched med_e slope s]
  by (auto simp: quiet_beat_def emitting_beat_def emit_jump_def emit_drift_def)

lemma act_frame:
  "beat_idx (act c matched med_e slope s) = beat_idx s"
  "t_grid (act c matched med_e slope s) = t_grid s"
  "onset_idx_hint (act c matched med_e slope s) = onset_idx_hint s"
  using act_cases [of c matched med_e slope s]
  by (auto simp: emit_jump_def emit_drift_def)

lemma gap_ok_cong:
  "last_point_time s = last_point_time s' \<Longrightarrow> gap_ok c s anchor = gap_ok c s' anchor"
  by (cases anchor) (simp_all add: gap_ok_def)

lemma record_match_frame:
  "bpm (record_match c matched s) = bpm s"
  "interval (record_match c matched s) = interval s"
  "t0 (record_match c matched s) = t0 s"
  "points (record_match c matched s) = points s"
  "last_point_time (record_match c matched s) = last_point_time s"
  "beat_idx (record_match c matched s) = beat_idx s"
  "t_grid (record_match c matched s) = t_grid s"
  "eval_streak_drift (record_match c matched s) = eval_streak_drift s"
  "eval_streak_offset (record_match c matched s) = eval_streak_offset s"
  by (cases matched; simp add: record_match_def)+

lemma record_match_hint:
  "err_q (record_match c matched (s\<lparr>onset_idx_hint := h\<rparr>)) = err_q (record_match c matched s)"
  "idx_q (record_match c matched (s\<lparr>onset_idx_hint := h\<rparr>)) = idx_q (record_match c matched s)"
  by (cases matched; simp add: record_match_def)+

lemma count_streaks_frame:
  "bpm (count_streaks c med_e slope s) = bpm s"
  "interval (count_streaks c med_e slope s) = interval s"
  "t0 (count_streaks c med_e slope s) = t0 s"
  "points (count_streaks c med_e slope s) = points s"
  "last_point_time (count_streaks c med_e slope s) = last_point_time s"
  "beat_idx (count_streaks c med_e slope s) = beat_idx s"
  "t_grid (count_streaks c med_e slope s) = t_grid s"
  "err_q (count_streaks c med_e slope s) = err_q s"
  "idx_q (count_streaks c med_e slope s) = idx_q s"
  by (simp_all add: count_streaks_def)

lemma quiet_beat_refl: "quiet_beat s s"
  by (simp add: quiet_beat_def)

lemma quiet_beat_trans: "quiet_beat s s' \<Longrightarrow> quiet_beat s' s'' \<Longrightarrow> quiet_beat s s''"
  by (simp add: quiet_beat_def)

lemma emitting_beat_after_quiet:
  "quiet_beat s s' \<Longrightarrow> emitting_beat c s' s'' \<Longrightarrow> emitting_beat c s s''"
  by (auto simp: quiet_beat_def emitting_beat_def gap_ok_def)

lemma classify_effect:
  assumes "classify c matched s = Inr s'"
  shows "beat_idx s' = beat_idx s \<and>
     (quiet_beat s s' \<and> err_q s' = err_q s \<and> idx_q s' = idx_q s \<or> emitting_beat c s s')"
proof -
  from classify_Inr [OF assms] show ?thesis
  proof
    assume "s' = s"
    then show ?thesis by (simp add: quiet_beat_refl)
  next
    assume "\<exists>slope. s' = act c matched (np_median (err_q s)) slope
                    (count_streaks c (np_median (err_q s)) slope s)"
    then obtain slope where s': "s' = act c matched (np_median (err_q s)) slope
                    (count_streaks c (np_median (err_q s)) slope s)" ..
    let ?s1 = "count_streaks c (np_median (err_q s)) slope s"
    have q: "quiet_beat s ?s1" by (simp add: quiet_beat_def count_streaks_frame)
    from act_effect [of ?s1 c matched "np_median (err_q s)" slope]
    have "quiet_beat s s' \<and> err_q s' = err_q s \<and> idx_q s' = idx_q s \<or> emitting_beat c s s'"
      unfolding s' [symmetric]
      using q by (auto intro: quiet_beat_trans emitting_beat_after_quiet simp: count_streaks_frame)
    moreover have "beat_idx s' = beat_idx s"
      unfolding s' by (simp add: act_frame count_streaks_frame)
    ultimately show ?thesis by simp
  qed
qed

lemma beat_step_effect:
  assumes "beat_step c os s = Inr s'"
  shows "beat_idx s' = beat_idx s + 1"
    and "t_grid s' = t0 s' + real_of_int (beat_idx s') * interval s'"
    and "(quiet_beat s s' \<and> (\<exists>matched. err_q s' = err_q (record_match c matched s)
                                    \<and> idx_q s' = idx_q (record_match c matched s)))
         \<or> emitting_beat c s s'"
proof -
  from beat_step_Inr [OF assms] obtain matched h s2 where
    cl: "classify c matched (record_match c matched (s\<lparr>onset_idx_hint := h\<rparr>)) = Inr s2"
    and s': "s' = next_beat s2" by blast
  let ?s1 = "record_match c matched (s\<lparr>onset_idx_hint := h\<rparr>)"
  have q1: "quiet_beat s ?s1" by (simp add: quiet_beat_def record_match_frame)
  have n: "quiet_beat s2 s'" "err_q s' = err_q s2" "idx_q s' = idx_q s2"
    "eval_streak_drift s' = eval_streak_drift s2" "eval_streak_offset s' = eval_streak_offset s2"
    by (simp_all add: s' next_beat_def quiet_beat_def)
  from classify_effect [OF cl] have b: "beat_idx s2 = beat_idx s"
    and e: "quiet_beat ?s1 s2 \<and> err_q s2 = err_q ?s1 \<and> idx_q s2 = idx_q ?s1
            \<or> emitting_beat c ?s1 s2"
    by (simp_all add: record_match_frame)
  from b show "beat_idx s' = beat_idx s + 1" by (simp add: s' next_beat_def)
  show "t_grid s' = t0 s' + real_of_int (beat_idx s') * interval s'"
    by (simp add: s' next_beat_def)
  from e show "(quiet_beat s s' \<and> (\<exists>matched. err_q s' = err_q (record_match c matched s)
                                    \<and> idx_q s' = idx_q (record_match c matched s)))
         \<or> emitting_beat c s s'"
  proof
    assume a: "quiet_beat ?s1 s2 \<and> err_q s2 = err_q ?s1 \<and> idx_q s2 = idx_q ?s1"
    with q1 n have "quiet_beat s s'" by (blast intro: quiet_beat_trans)
    moreover from a n have "err_q s' = err_q (record_match c matched s)"
      "idx_q s' = idx_q (record_match c matched s)"
      by (simp_all add: record_match_hint)
    ultimately show ?thesis by blast
  next
    assume "emitting_beat c ?s1 s2"
    with q1 have "emitting_beat c s s2" by (rule emitting_beat_after_quiet)
    with n have "emitting_beat c s s'"
      by (auto simp: emitting_beat_def quiet_beat_def)
    then show ?thesis ..
  qed
qed

subsection \<open>The invariants are kept by every beat\<close>

lemma beat_step_grid_ok:
  assumes "beat_step c os s = Inr s'" and "grid_ok s"
  shows "grid_ok s'"
  using beat_step_effect [OF assms(1)] assms(2)
  by (auto simp: grid_ok_def quiet_beat_def emitting_beat_def)

lemma beat_step_points_ok:
  assumes "beat_step c os s = Inr s'" and "points_ok c s"
  shows "points_ok c s'"
  using beat_step_effect(3) [OF assms(1)] assms(2)
  by (auto simp: points_ok_def quiet_beat_def emitting_beat_def gap_ok_def
      successively_append_iff)

lemma record_match_window_ok:
  assumes "window_ok c s"
  shows "length (err_q (record_match c matched s)) = length (idx_q (record_match c matched s))"
    and "length (idx_q (record_match c matched s)) \<le> window_maxlen c"
    and "sorted_wrt (<) (idx_q (record_match c matched s))"
    and "list_all (\<lambda>i. i < beat_idx s + 1) (idx_q (record_match c matched s))"
proof -
  from assms have len: "length (err_q s) = length (idx_q s)"
    and cap: "length (idx_q s) \<le> window_maxlen c"
    and srt: "sorted_wrt (<) (idx_q s)" and below: "list_all (\<lambda>i. i < beat_idx s) (idx_q s)"
    by (simp_all add: window_ok_def)
  have pos: "0 < window_maxlen c" using window_maxlen_pos [of c] by simp
  show "length (err_q (record_match c matched s)) = length (idx_q (record_match c matched s))"
    using len by (cases matched) (simp_all add: record_match_def deque_append_length_eq)
  show "length (idx_q (record_match c matched s)) \<le> window_maxlen c"
    using cap pos by (cases matched) (simp_all add: record_match_def deque_append_length)
  show "sorted_wrt (<) (idx_q (record_match c matched s))"
    using srt below by (cases matched) (simp_all add: record_match_def deque_append_sorted)
  show "list_all (\<lambda>i. i < beat_idx s + 1) (idx_q (record_match c matched s))"
  proof (cases matched)
    case None
    with below show ?thesis by (auto simp: record_match_def list_all_iff)
  next
    case (Some m)
    have "i < beat_idx s + 1"
      if "i \<in> set (deque_append (window_maxlen c) (idx_q s) (beat_idx s))" for i
    proof -
      from that deque_append_set [of "window_maxlen c" "idx_q s" "beat_idx s"]
      have "i = beat_idx s \<or> i \<in> set (idx_q s)" by auto
      with below show ?thesis by (auto simp: list_all_iff)
    qed
    with Some show ?thesis by (simp add: record_match_def list_all_iff)
  qed
qed

lemma beat_step_window_ok:
  assumes "beat_step c os s = Inr s'" and "window_ok c s"
  shows "window_ok c s'"
proof -
  note eff = beat_step_effect [OF assms(1)]
  from eff(3) show ?thesis
  proof
    assume "quiet_beat s s' \<and> (\<exists>matched. err_q s' = err_q (record_match c matched s)
                                    \<and> idx_q s' = idx_q (record_match c matched s))"
    then obtain matched where "err_q s' = err_q (record_match c matched s)"
      "idx_q s' = idx_q (record_match c matched s)" by blast
    with record_match_window_ok [OF assms(2), of matched] eff(1)
    show ?thesis by (simp add: window_ok_def)
  next
    assume "emitting_beat c s s'"
    then show ?thesis by (auto simp: emitting_beat_def window_ok_def)
  qed
qed

lemma beat_step_points_length:
  assumes "beat_step c os s = Inr s'"
  shows "length (points s') = length (points s) \<and> quiet_beat s s'
         \<or> length (points s') = length (points s) + 1"
  using beat_step_effect(3) [OF assms]
  by (auto simp: quiet_beat_def emitting_beat_def)

lemma beat_step_sim_inv:
  assumes "beat_step c os s = Inr s'" and "sim_inv c s" and "loop_guard c duration s"
  shows "sim_inv c s'"
proof -
  from assms(2) have "grid_ok s" "points_ok c s" "window_ok c s" by (simp_all add: sim_inv_def)
  then have "grid_ok s'" "points_ok c s'" "window_ok c s'"
    using assms(1) by (blast intro: beat_step_grid_ok beat_step_points_ok beat_step_window_ok)+
  moreover from assms(3) beat_step_points_length [OF assms(1)]
  have "int (length (points s')) \<le> max 1 (max_points c)"
    by (auto simp: loop_guard_def)
  ultimately show ?thesis by (simp add: sim_inv_def)
qed

lemma classify_no_error:
  assumes "length (err_q s) = length (idx_q s)"
  shows "\<exists>s'. classify c matched s = Inr s'"
proof -
  from assms robust_slope_no_error [of "idx_q s" "err_q s"]
  obtain v where "robust_slope_s_per_beat (idx_q s) (err_q s) = Inr v" by auto
  then show ?thesis by (simp add: classify_def Let_def)
qed

lemma beat_step_no_error:
  assumes "window_ok c s"
  shows "\<exists>s'. beat_step c os s = Inr s'"
proof -
  obtain matched h where
    f: "find_nearest_onset os (onset_idx_hint s) (t_grid s) (window_s c) = (matched, h)"
    by (cases "find_nearest_onset os (onset_idx_hint s) (t_grid s) (window_s c)")
  let ?s1 = "record_match c matched (s\<lparr>onset_idx_hint := h\<rparr>)"
  from record_match_window_ok(1) [OF assms, of matched]
  have "length (err_q ?s1) = length (idx_q ?s1)" by (simp add: record_match_hint)
  from classify_no_error [OF this] obtain s2 where "classify c matched ?s1 = Inr s2" ..
  with f show ?thesis by (simp add: beat_step_def)
qed

subsection \<open>The loops return\<close>

lemma beat_step_decreases:
  assumes st: "beat_step c os s = Inr s'" and g: "grid_ok s" and lg: "loop_guard c duration s"
  shows "points_left c s' < points_left c s \<or>
         points_left c s' = points_left c s \<and> beats_left duration s' < beats_left duration s"
proof -
  note eff = beat_step_effect [OF st]
  from beat_step_points_length [OF st] show ?thesis
  proof
    assume q: "length (points s') = length (points s) \<and> quiet_beat s s'"
    then have same: "interval s' = interval s" "t0 s' = t0 s" by (simp_all add: quiet_beat_def)
    from g have iv: "0 < interval s" and t: "t_grid s = t0 s + real_of_int (beat_idx s) * interval s"
      by (simp_all add: grid_ok_def)
    from eff(1,2) same t have t': "t_grid s' = t_grid s + interval s"
      by (simp add: algebra_simps)
    from lg have le: "t_grid s \<le> duration" by (simp add: loop_guard_def)
    with iv have nonneg: "0 \<le> \<lfloor>(duration - t_grid s) / interval s\<rfloor>" by simp
    have "(duration - t_grid s') / interval s' = (duration - t_grid s) / interval s - 1"
      using iv by (simp add: t' same field_simps)
    then have "\<lfloor>(duration - t_grid s') / interval s'\<rfloor> = \<lfloor>(duration - t_grid s) / interval s\<rfloor> - 1"
      by simp
    with nonneg have "beats_left duration s' < beats_left duration s"
      by (simp add: beats_left_def)
    with q show ?thesis by (simp add: points_left_def)
  next
    assume "length (points s') = length (points s) + 1"
    with lg have "points_left c s' < points_left c s"
      by (simp add: points_left_def loop_guard_def)
    then show ?thesis ..
  qed
qed

lemma sim_loop_returns:
  assumes "sim_inv c s"
  shows "\<exists>sf. sim_loop c os duration s = Some (Inr sf) \<and> sim_inv c sf
               \<and> \<not> loop_guard c duration sf"
proof -
  have "wf (measures [points_left c, beats_left duration])" by simp
  then show ?thesis using assms
  proof (induction s rule: wf_induct_rule)
    case (less s)
    show ?case
    proof (cases "loop_guard c duration s")
      case False
      with less.prems show ?thesis by (subst sim_loop.simps) simp
    next
      case True
      from less.prems have g: "grid_ok s" and w: "window_ok c s" by (simp_all add: sim_inv_def)
      from beat_step_no_error [OF w] obtain s' where st: "beat_step c os s = Inr s'" ..
      from beat_step_sim_inv [OF st less.prems True] have inv': "sim_inv c s'" .
      from beat_step_decreases [OF st g True]
      have "(s', s) \<in> measures [points_left c, beats_left duration]" by auto
      from less.IH [OF this inv'] obtain sf where
        "sim_loop c os duration s' = Some (Inr sf)" "sim_inv c sf" "\<not> loop_guard c duration sf"
        by blast
      with True st show ?thesis by (subst sim_loop.simps) simp
    qed
  qed
qed

lemma next_beat_sim_inv: "sim_inv c s \<Longrightarrow> sim_inv c (next_beat s)"
  by (auto simp: sim_inv_def grid_ok_def points_ok_def window_ok_def next_beat_def list_all_iff)

lemma skip_negative_returns:
  assumes "sim_inv c s"
  shows "\<exists>s'. skip_negative s = Some s' \<and> sim_inv c s' \<and>
               points s' = points s \<and> bpm s' = bpm s \<and> err_q s' = err_q s \<and> idx_q s' = idx_q s"
proof -
  have "wf (measure (\<lambda>s. nat \<lceil>- t_grid s / interval s\<rceil>))" by simp
  then show ?thesis using assms
  proof (induction s rule: wf_induct_rule)
    case (less s)
    show ?case
    proof (cases "t_grid s < 0")
      case False
      with less.prems show ?thesis by (subst skip_negative.simps) simp
    next
      case True
      from less.prems have iv: "0 < interval s"
        and t: "t_grid s = t0 s + real_of_int (beat_idx s) * interval s"
        by (simp_all add: sim_inv_def grid_ok_def)
      have t': "t_grid (next_beat s) = t_grid s + interval s"
        and iv': "interval (next_beat s) = interval s"
        using t by (simp_all add: next_beat_def algebra_simps)
      have "- t_grid (next_beat s) / interval (next_beat s) = - t_grid s / interval s - 1"
        using iv by (simp add: t' iv' field_simps)
      then have "\<lceil>- t_grid (next_beat s) / interval (next_beat s)\<rceil>
          = \<lceil>- t_grid s / interval s\<rceil> - 1" by simp
      moreover from True iv have "t_grid s / interval s < 0"
        by (rule divide_neg_pos)
      then have "0 < - t_grid s / interval s" by simp
      then have "0 < \<lceil>- t_grid s / interval s\<rceil>" by simp
      ultimately have "(next_beat s, s) \<in> measure (\<lambda>s. nat \<lceil>- t_grid s / interval s\<rceil>)"
        by simp
      from less.IH [OF this next_beat_sim_inv [OF less.prems]] obtain s' where
        "skip_negative (next_beat s) = Some s'" "sim_inv c s'"
        "points s' = points (next_beat s)" "bpm s' = bpm (next_beat s)"
        "err_q s' = err_q (next_beat s)" "idx_q s' = idx_q (next_beat s)" by blast
      with True show ?thesis by (subst skip_negative.simps) (simp add: next_beat_def)
    qed
  qed
qed

subsection \<open>Reachable states\<close>

lemma skip_negative_frame:
  assumes "skip_negative s = Some s'"
  shows "points s' = points s \<and> bpm s' = bpm s \<and> err_q s' = err_q s \<and> idx_q s' = idx_q s
         \<and> beat_idx s \<le> beat_idx s'"
proof (rule skip_negative.raw_induct
    [where P = "\<lambda>s s'. points s' = points s \<and> bpm s' = bpm s \<and> err_q s' = err_q s
                  \<and> idx_q s' = idx_q s \<and> beat_idx s \<le> beat_idx s'", OF _ assms])
  fix f s s'
  assume IH: "\<And>s s'. f s = Some s' \<Longrightarrow> points s' = points s \<and> bpm s' = bpm s
      \<and> err_q s' = err_q s \<and> idx_q s' = idx_q s \<and> beat_idx s \<le> beat_idx s'"
    and eq: "(if t_grid s < 0 then f (next_beat s) else Some s) = Some s'"
  show "points s' = points s \<and> bpm s' = bpm s \<and> err_q s' = err_q s \<and> idx_q s' = idx_q s
         \<and> beat_idx s \<le> beat_idx s'"
  proof (cases "t_grid s < 0")
    case True
    with eq have "f (next_beat s) = Some s'" by simp
    from IH [OF this] show ?thesis by (simp add: next_beat_def)
  next
    case False
    with eq show ?thesis by simp
  qed
qed

lemma init_state_window_ok: "window_ok c (init_state a b)"
  by (simp add: window_ok_def init_state_def)

lemma sim_reachable_window_ok:
  assumes "sim_reachable c os duration a b s"
  shows "window_ok c s"
  using assms
proof (induction rule: sim_reachable.induct)
  case (start s)
  from skip_negative_frame [OF start] init_state_window_ok [of c a b] show ?case
    by (auto simp: window_ok_def list_all_iff)
next
  case (step s s')
  from beat_step_window_ok [OF step(3) step.IH] show ?case .
qed

lemma sim_loop_reachable:
  assumes ret: "sim_loop c os duration s = Some (Inr sf)"
    and reach: "sim_reachable c os duration a b s"
  shows "sim_reachable c os duration a b sf"
proof -
  have "\<forall>sf'. (Inr sf :: error + sim_state) = Inr sf' \<longrightarrow> sim_reachable c os duration a b s
          \<longrightarrow> sim_reachable c os duration a b sf'"
  proof (rule sim_loop.raw_induct
      [where P = "\<lambda>c os d s r. \<forall>sf. r = Inr sf \<longrightarrow> sim_reachable c os d a b s
                \<longrightarrow> sim_reachable c os d a b sf", OF _ ret])
    fix f c os d s r
    assume IH: "\<And>c os d s r. f c os d s = Some r \<Longrightarrow>
        \<forall>sf. r = Inr sf \<longrightarrow> sim_reachable c os d a b s \<longrightarrow> sim_reachable c os d a b sf"
      and eq: "(if loop_guard c d s
          then case beat_step c os s of Inl e \<Rightarrow> Some (Inl e) | Inr s' \<Rightarrow> f c os d s'
          else Some (Inr s)) = Some r"
    show "\<forall>sf. r = Inr sf \<longrightarrow> sim_reachable c os d a b s \<longrightarrow> sim_reachable c os d a b sf"
    proof (intro allI impI)
      fix sf assume r: "r = Inr sf" and reach: "sim_reachable c os d a b s"
      show "sim_reachable c os d a b sf"
      proof (cases "loop_guard c d s")
        case False
        with eq r reach show ?thesis by simp
      next
        case True
        with eq r obtain s' where st: "beat_step c os s = Inr s'"
          and f: "f c os d s' = Some (Inr sf)"
          by (cases "beat_step c os s") auto
        from reach True st have "sim_reachable c os d a b s'" by (rule sim_reachable.step)
        with IH [OF f] show ?thesis by simp
      qed
    qed
  qed
  with reach show ?thesis by simp
qed

subsection \<open>The phase selector returns\<close>

lemma phase_scan_returns:
  assumes "0 < ival" and "ps_t ps = cand + real_of_int (ps_beat_idx ps) * ival"
  shows "\<exists>ps'. phase_scan ot w cand secs ival ps = Some ps'"
proof -
  have "wf (measure (\<lambda>ps. nat (\<lfloor>(cand + secs - ps_t ps) / ival\<rfloor> + 1)))" by simp
  then show ?thesis using assms(2)
  proof (induction ps rule: wf_induct_rule)
    case (less ps)
    show ?case
    proof (cases "ps_t ps \<le> cand + secs")
      case False
      then show ?thesis by (subst phase_scan.simps) simp
    next
      case True
      obtain m h where f: "find_nearest_onset ot (ps_onset_idx_hint ps) (ps_t ps) w = (m, h)"
        by (cases "find_nearest_onset ot (ps_onset_idx_hint ps) (ps_t ps) w")
      define ps1 where "ps1 =
        (case m of None \<Rightarrow> ps
         | Some v \<Rightarrow> ps\<lparr>ps_matches := ps_matches ps + 1, ps_errs := ps_errs ps @ [v - ps_t ps]\<rparr>)
        \<lparr>ps_onset_idx_hint := h, ps_beat_idx := ps_beat_idx ps + 1,
         ps_t := cand + real_of_int (ps_beat_idx ps + 1) * ival\<rparr>"
      have bi: "ps_beat_idx ps1 = ps_beat_idx ps + 1"
        and t1: "ps_t ps1 = cand + real_of_int (ps_beat_idx ps + 1) * ival"
        by (simp_all add: ps1_def)
      from t1 less.prems have t': "ps_t ps1 = ps_t ps + ival" by (simp add: algebra_simps)
      from True assms(1) have nonneg: "0 \<le> \<lfloor>(cand + secs - ps_t ps) / ival\<rfloor>" by simp
      have "(cand + secs - ps_t ps1) / ival = (cand + secs - ps_t ps) / ival - 1"
        using assms(1) by (simp add: t' field_simps)
      then have "\<lfloor>(cand + secs - ps_t ps1) / ival\<rfloor> = \<lfloor>(cand + secs - ps_t ps) / ival\<rfloor> - 1"
        by simp
      with nonneg have "(ps1, ps) \<in> measure (\<lambda>ps. nat (\<lfloor>(cand + secs - ps_t ps) / ival\<rfloor> + 1))"
        by simp
      moreover have "ps_t ps1 = cand + real_of_int (ps_beat_idx ps1) * ival"
        by (simp add: bi t1)
      ultimately obtain ps' where "phase_scan ot w cand secs ival ps1 = Some ps'"
        using less.IH by blast
      with True f show ?thesis by (subst phase_scan.simps) (simp add: ps1_def)
    qed
  qed
qed

lemma phase_loop_returns:
  assumes "0 < ival"
  shows "\<exists>pb'. phase_loop ot w seed_t0 ival secs divs ks pb = Some pb'"
proof (induction ks arbitrary: pb)
  case Nil
  show ?case by simp
next
  case (Cons k ks)
  define cand where "cand = seed_t0 + (real k / real_of_int divs) * ival"
  from phase_scan_returns [OF assms, where cand = cand and ot = ot and w = w and secs = secs
      and ps = "\<lparr>ps_onset_idx_hint = 0, ps_beat_idx = 0, ps_t = cand, ps_errs = [], ps_matches = 0\<rparr>"]
  obtain ps where ps: "phase_scan ot w cand secs ival
      \<lparr>ps_onset_idx_hint = 0, ps_beat_idx = 0, ps_t = cand, ps_errs = [], ps_matches = 0\<rparr> = Some ps"
    by auto
  have "phase_loop ot w seed_t0 ival secs divs (k # ks) pb =
      phase_loop ot w seed_t0 ival secs divs ks pb \<or>
    phase_loop ot w seed_t0 ival secs divs (k # ks) pb =
      phase_loop ot w seed_t0 ival secs divs ks
        \<lparr>best_t0 = cand, best_matches = ps_matches ps,
         best_med_abs_err = np_median (map abs (ps_errs ps))\<rparr>"
    unfolding phase_loop.simps Let_def cand_def [symmetric] ps by simp
  with Cons.IH [of pb]
    Cons.IH [of "\<lparr>best_t0 = cand, best_matches = ps_matches ps,
                    best_med_abs_err = np_median (map abs (ps_errs ps))\<rparr>"]
  show ?case by auto
qed

lemma choose_best_phase_returns:
  "\<exists>a. choose_best_phase seed_t0 ival onset_times w secs divs = Some a"
proof (cases "length onset_times = 0 \<or> ival \<le> 1 / 10 ^ 6")
  case True
  then show ?thesis by (auto simp: choose_best_phase_def)
next
  case False
  then have "0 < ival" by (simp add: not_le)
  from phase_loop_returns [OF this] False show ?thesis
    by (simp add: choose_best_phase_def Let_def)
qed

lemma choose_best_phase_no_onsets: "choose_best_phase seed_t0 ival [] w secs divs = Some seed_t0"
  by (simp add: choose_best_phase_def)

subsection \<open>The core returns a state that satisfies the invariants\<close>

lemma effective_bpm_pos: "0 < effective_bpm seed_bpm"
  by (simp add: effective_bpm_def not_le)

lemma init_state_sim_inv: "0 < b \<Longrightarrow> sim_inv c (init_state a b)"
  by (simp add: sim_inv_def grid_ok_def points_ok_def window_ok_def init_state_def)

lemma sim_reachable_first_point:
  assumes "sim_reachable c os duration a b s"
  shows "points s \<noteq> [] \<and> hd (points s) = (a, b)"
  using assms
proof (induction rule: sim_reachable.induct)
  case (start s)
  from skip_negative_frame [OF start] show ?case by (simp add: init_state_def)
next
  case (step s s')
  from beat_step_effect(3) [OF step(3)] step.IH show ?case
    by (auto simp: quiet_beat_def emitting_beat_def)
qed

lemma analyze_core_returns:
  "\<exists>a2 sf. choose_best_phase (snap_anchor (sort raw) (window_s c) seed_anchor)
              (60 / effective_bpm seed_bpm) (sort raw) (window_s c)
              (phase_search_seconds c) (phase_divisions c) = Some a2 \<and>
     hd (points sf) = (a2, effective_bpm seed_bpm) \<and>
     sim_reachable c (sort raw) duration a2 (effective_bpm seed_bpm) sf \<and>
     sim_inv c sf \<and> \<not> loop_guard c duration sf \<and>
     analyze_core c raw seed_bpm seed_anchor duration = Some (Inr (points sf, bpm sf))"
proof -
  let ?b = "effective_bpm seed_bpm"
  let ?os = "sort raw"
  obtain a2 where a2: "choose_best_phase (snap_anchor ?os (window_s c) seed_anchor)
              (60 / ?b) ?os (window_s c) (phase_search_seconds c) (phase_divisions c) = Some a2"
    using choose_best_phase_returns by blast
  from init_state_sim_inv [OF effective_bpm_pos] have "sim_inv c (init_state a2 ?b)" .
  from skip_negative_returns [OF this] obtain s1 where
    s1: "skip_negative (init_state a2 ?b) = Some s1" and inv1: "sim_inv c s1"
    and p1: "points s1 = points (init_state a2 ?b)" by blast
  from sim_loop_returns [OF inv1] obtain sf where
    sf: "sim_loop c ?os duration s1 = Some (Inr sf)" and invf: "sim_inv c sf"
    and stop: "\<not> loop_guard c duration sf" by blast
  from s1 have "sim_reachable c ?os duration a2 ?b s1" by (rule sim_reachable.start)
  with sf have reach: "sim_reachable c ?os duration a2 ?b sf" by (rule sim_loop_reachable)
  have "analyze_core c raw seed_bpm seed_anchor duration = Some (Inr (points sf, bpm sf))"
    by (simp add: analyze_core_def Let_def a2 s1 sf)
  moreover from sim_reachable_first_point [OF reach] have "hd (points sf) = (a2, ?b)" by simp
  ultimately show ?thesis using a2 reach invf stop by blast
qed

section \<open>Example runs\<close>

text \<open>The definitions to unfold when a run is evaluated on a concrete input.\<close>

lemmas run_simps = analyze_core_def effective_bpm_def snap_anchor_def window_s_def
  choose_best_phase_def find_nearest_onset_def advance_hint.simps candidates_def
  phase_scan.simps np_median_def ext_less_def init_state_def skip_negative.simps
  sim_loop.simps loop_guard_def beat_step_def record_match_def deque_append_def
  window_maxlen_def classify_def robust_slope_s_per_beat_def count_streaks_def
  is_drift_def is_jump_def act_def anchor_time_def gap_ok_def emit_jump_def emit_drift_def
  next_beat_def Let_def np_dot_def center_def

lemma example_run:
  "analyze_core example_config [103 / 100] 60 0 2 = Some (Inr ([(0, 60), (103 / 100, 60)], 60))"
  by (simp add: example_config_def run_simps)

lemma example_run_persist_0:
  "analyze_core (example_config\<lparr>persist := 0\<rparr>) [103 / 100] 60 0 2 = Some (Inr ([(0, 60)], 60))"
  by (simp add: example_config_def run_simps)

lemma init_state_skip: "0 \<le> a \<Longrightarrow> skip_negative (init_state a b) = Some (init_state a b)"
  by (subst skip_negative.simps) (simp add: init_state_def)

lemma example_beat_0:
  "beat_step example_config [103 / 100] (init_state 0 60) = Inr (next_beat (init_state 0 60))"
  by (simp add: example_config_def run_simps)

lemma example_beat_1:
  "find_nearest_onset [103 / 100] (onset_idx_hint (next_beat (init_state 0 60)))
     (t_grid (next_beat (init_state 0 60))) (window_s example_config) = (Some (103 / 100), 0)"
  "record_match example_config (Some (103 / 100))
     ((next_beat (init_state 0 60))\<lparr>onset_idx_hint := 0\<rparr>) = example_beat"
  by (simp_all add: example_config_def example_beat_def run_simps)

lemma example_beat_reachable:
  "sim_reachable example_config [103 / 100] 2 0 60 (next_beat (init_state 0 60))"
proof -
  have "sim_reachable example_config [103 / 100] 2 0 60 (init_state 0 60)"
    by (rule sim_reachable.start) (simp add: init_state_skip)
  moreover have "loop_guard example_config 2 (init_state 0 60)"
    by (simp add: loop_guard_def init_state_def example_config_def)
  ultimately show ?thesis using example_beat_0 by (rule sim_reachable.step)
qed

lemma example_beat_slope:
  "robust_slope_s_per_beat (idx_q example_beat) (err_q example_beat) = Inr 0"
  by (simp add: example_beat_def robust_slope_s_per_beat_def)

lemma example_beat_counted:
  assumes "offset_threshold_ms c = 18" and "drift_slope_ms_per_beat c = 12 / 10"
  shows "count_streaks c (np_median (err_q example_beat)) 0 example_beat
   = example_beat\<lparr>eval_streak_offset := 1\<rparr>"
  using assms
  by (simp add: example_beat_def count_streaks_def is_drift_def is_jump_def np_median_def)

lemma affine_run:
  "sim_loop (example_config\<lparr>min_matches := 14\<rparr>) affine_onsets 5 (init_state 0 60)
     = Some (Inr affine_window_state)"
  by (simp add: example_config_def affine_onsets_def affine_window_state_def run_simps)

lemma affine_window_reachable:
  "sim_reachable (example_config\<lparr>min_matches := 14\<rparr>) affine_onsets 5 0 60 affine_window_state"
proof -
  have "sim_reachable (example_config\<lparr>min_matches := 14\<rparr>) affine_onsets 5 0 60 (init_state 0 60)"
    by (rule sim_reachable.start) (simp add: init_state_skip)
  with affine_run show ?thesis by (rule sim_loop_reachable)
qed

lemma small_window_run:
  "sim_loop small_window_config [0, 1, 2, 3, 4] 4 (init_state 0 60) = Some (Inr small_window_state)"
  by (simp add: small_window_config_def example_config_def small_window_state_def run_simps)

lemma small_window_reachable:
  "sim_reachable small_window_config [0, 1, 2, 3, 4] 4 0 60 small_window_state"
proof -
  have "sim_reachable small_window_config [0, 1, 2, 3, 4] 4 0 60 (init_state 0 60)"
    by (rule sim_reachable.start) (simp add: init_state_skip)
  with small_window_run show ?thesis by (rule sim_loop_reachable)
qed

section \<open>The claims about the simulation\<close>

subsection \<open>The rolling window\<close>

text \<open>
  Claim C2, as stated: the rolling window is a bounded FIFO whose capacity equals
  \<^verbatim>\<open>decision_window\<close> for every value of \<^verbatim>\<open>decision_window\<close>.  It fails for
  values below 8: with \<^verbatim>\<open>decision_window = 4\<close> and an onset on each of five beats, the
  window holds five entries after the fifth beat, and nothing has been evicted; the
  capacity is 8.
\<close>

theorem rolling_window_capacity_counterexample:
  "decision_window small_window_config = 4 \<and>
   sim_loop small_window_config [0, 1, 2, 3, 4] 4 (init_state 0 60)
     = Some (Inr small_window_state) \<and>
   length (err_q small_window_state) = 5 \<and> length (idx_q small_window_state) = 5 \<and>
   window_maxlen small_window_config = 8"
  by (simp add: small_window_run)
    (simp add: small_window_config_def example_config_def small_window_state_def
      window_maxlen_def)

text \<open>
  Claim C2, amended: the rolling window of matched (beat index, error) pairs is a bounded
  FIFO whose capacity equals \<open>max 8 decision_window\<close>, for every configuration value of
  \<^verbatim>\<open>decision_window\<close>: in every state at the head of the simulation loop both deques
  hold at most that many entries, an append below capacity adds the entry on the right,
  and an append at capacity evicts the oldest entry.
\<close>

theorem rolling_window_bounded_fifo:
  "window_maxlen c = nat (max 8 (decision_window c)) \<and>
   (sim_reachable c onset_times duration a b s \<longrightarrow>
      length (err_q s) \<le> window_maxlen c \<and> length (idx_q s) \<le> window_maxlen c) \<and>
   (length q < window_maxlen c \<longrightarrow> deque_append (window_maxlen c) q x = q @ [x]) \<and>
   (length q_full = window_maxlen c \<longrightarrow>
      deque_append (window_maxlen c) q_full y = tl q_full @ [y])"
proof (intro conjI impI)
  show "window_maxlen c = nat (max 8 (decision_window c))" by (simp add: window_maxlen_def)
next
  assume "sim_reachable c onset_times duration a b s"
  then have "window_ok c s" by (rule sim_reachable_window_ok)
  then show "length (err_q s) \<le> window_maxlen c" "length (idx_q s) \<le> window_maxlen c"
    by (simp_all add: window_ok_def)
next
  assume "length q < window_maxlen c"
  then show "deque_append (window_maxlen c) q x = q @ [x]"
    by (rule deque_append_below_capacity)
next
  assume "length q_full = window_maxlen c"
  moreover have "0 < window_maxlen c" using window_maxlen_pos [of c] by simp
  ultimately show "deque_append (window_maxlen c) q_full y = tl q_full @ [y]"
    by (rule deque_append_at_capacity)
qed

theorem rolling_window_bounded_fifo_witness:
  "sim_reachable small_window_config [0, 1, 2, 3, 4] 4 0 60 small_window_state \<and>
   length (err_q small_window_state) \<le> window_maxlen small_window_config \<and>
   length (idx_q small_window_state) \<le> window_maxlen small_window_config \<and>
   length (idx_q small_window_state) < window_maxlen small_window_config \<and>
   deque_append (window_maxlen small_window_config) (idx_q small_window_state) 5
     = idx_q small_window_state @ [5] \<and>
   length [0, 1, 2, 3, 4, 5, 6, 7 :: int] = window_maxlen small_window_config \<and>
   deque_append (window_maxlen small_window_config) [0, 1, 2, 3, 4, 5, 6, 7 :: int] 8
     = tl [0, 1, 2, 3, 4, 5, 6, 7] @ [8]"
proof -
  have m: "window_maxlen small_window_config = 8"
    by (simp add: small_window_config_def example_config_def window_maxlen_def)
  have h2: "length (idx_q small_window_state) < window_maxlen small_window_config"
    by (simp add: m small_window_state_def)
  have h3: "length [0, 1, 2, 3, 4, 5, 6, 7 :: int] = window_maxlen small_window_config"
    by (simp add: m)
  note th = rolling_window_bounded_fifo
    [of small_window_config "[0, 1, 2, 3, 4]" 4 0 60 small_window_state
        "idx_q small_window_state" 5 "[0, 1, 2, 3, 4, 5, 6, 7]" 8]
  note r = th [THEN conjunct2, THEN conjunct1, THEN mp, OF small_window_reachable]
  show ?thesis
    by (intro conjI small_window_reachable r [THEN conjunct1] r [THEN conjunct2] h2 h3
        th [THEN conjunct2, THEN conjunct2, THEN conjunct1, THEN mp, OF h2]
        th [THEN conjunct2, THEN conjunct2, THEN conjunct2, THEN mp, OF h3])
qed

text \<open>
  Claim C10: in every state at the head of the simulation loop, and in the state of a
  beat after its match has been recorded (the state the classifier reads), the error
  deque and the beat-index deque have equal length; therefore the beat never fails with
  the \<^verbatim>\<open>ValueError\<close> of \<^verbatim>\<open>np.dot\<close> on arrays of different sizes.
\<close>

theorem window_deques_equal_length:
  assumes "sim_reachable c onset_times duration a b s"
  shows "length (err_q s) = length (idx_q s) \<and>
         length (err_q (record_match c matched s)) = length (idx_q (record_match c matched s)) \<and>
         (\<exists>s'. beat_step c onset_times s = Inr s')"
proof -
  from assms have w: "window_ok c s" by (rule sim_reachable_window_ok)
  then have "length (err_q s) = length (idx_q s)" by (simp add: window_ok_def)
  with record_match_window_ok(1) [OF w] beat_step_no_error [OF w] show ?thesis by blast
qed

theorem window_deques_equal_length_witness:
  "sim_reachable example_config [103 / 100] 2 0 60 (next_beat (init_state 0 60)) \<and>
   length (err_q (next_beat (init_state 0 60))) = length (idx_q (next_beat (init_state 0 60))) \<and>
   length (err_q (record_match example_config (Some (103 / 100)) (next_beat (init_state 0 60))))
     = length (idx_q (record_match example_config (Some (103 / 100)) (next_beat (init_state 0 60)))) \<and>
   (\<exists>s'. beat_step example_config [103 / 100] (next_beat (init_state 0 60)) = Inr s')"
  by (intro conjI example_beat_reachable
      window_deques_equal_length [OF example_beat_reachable, THEN conjunct1]
      window_deques_equal_length [OF example_beat_reachable, THEN conjunct2, THEN conjunct1]
      window_deques_equal_length [OF example_beat_reachable, THEN conjunct2, THEN conjunct2])

subsection \<open>The slope estimator on the window\<close>

lemma sim_reachable_window_distinct:
  assumes "sim_reachable c onset_times duration a b s"
  shows "distinct (idx_q s)"
proof -
  from assms have "window_ok c s" by (rule sim_reachable_window_ok)
  then have "sorted_wrt (<) (idx_q s)" by (simp add: window_ok_def)
  then show ?thesis by (simp add: strict_sorted_iff)
qed

text \<open>
  Claim C6: for every window content whose errors are exactly affine in the beat index,
  \<open>e(i) = a + b * i\<close>, with at least 6 samples, the slope estimator returns exactly
  \<open>b\<close>, whatever the intercept \<open>a\<close>; for fewer than 6 samples it returns 0.  The
  window content is that of any state of the simulation loop, at the head of the loop
  or after the match of the beat has been recorded; the same holds for any list of
  pairwise distinct beat indices (the beat indices of a window are strictly increasing,
  \<open>sim_reachable_window_distinct\<close>).  Arithmetic is exact (floats are modelled as
  reals).
\<close>

theorem robust_slope_exact_on_affine_errors:
  "(sim_reachable c onset_times duration a0 b0 s \<and>
      6 \<le> length (idx_q (record_match c matched s)) \<and>
      err_q (record_match c matched s)
        = map (\<lambda>i. a + b * real_of_int i) (idx_q (record_match c matched s)) \<longrightarrow>
    robust_slope_s_per_beat (idx_q (record_match c matched s)) (err_q (record_match c matched s))
      = Inr b) \<and>
   (distinct idxs \<and> 6 \<le> length idxs \<longrightarrow>
      robust_slope_s_per_beat idxs (map (\<lambda>i. a' + b' * real_of_int i) idxs) = Inr b') \<and>
   (length short_idxs < 6 \<longrightarrow> robust_slope_s_per_beat short_idxs errs = Inr 0)"
proof (intro conjI impI)
  assume h: "sim_reachable c onset_times duration a0 b0 s \<and>
      6 \<le> length (idx_q (record_match c matched s)) \<and>
      err_q (record_match c matched s)
        = map (\<lambda>i. a + b * real_of_int i) (idx_q (record_match c matched s))"
  then have "window_ok c s" by (blast intro: sim_reachable_window_ok)
  from record_match_window_ok(3) [OF this, of matched]
  have "distinct (idx_q (record_match c matched s))" by (simp add: strict_sorted_iff)
  with h robust_slope_affine [of "idx_q (record_match c matched s)" a b]
  show "robust_slope_s_per_beat (idx_q (record_match c matched s))
      (err_q (record_match c matched s)) = Inr b" by simp
next
  assume "distinct idxs \<and> 6 \<le> length idxs"
  then show "robust_slope_s_per_beat idxs (map (\<lambda>i. a' + b' * real_of_int i) idxs) = Inr b'"
    by (simp add: robust_slope_affine)
next
  assume "length short_idxs < 6"
  then show "robust_slope_s_per_beat short_idxs errs = Inr 0" by (rule robust_slope_short)
qed

theorem robust_slope_exact_on_affine_errors_witness:
  "sim_reachable (example_config\<lparr>min_matches := 14\<rparr>) affine_onsets 5 0 60 affine_window_state \<and>
   6 \<le> length (idx_q affine_window_state) \<and>
   err_q affine_window_state
     = map (\<lambda>i. 1 / 100 + 1 / 1000 * real_of_int i) (idx_q affine_window_state) \<and>
   robust_slope_s_per_beat (idx_q affine_window_state) (err_q affine_window_state)
     = Inr (1 / 1000) \<and>
   distinct [3, 4, 6, 7, 9, 12 :: int] \<and> 6 \<le> length [3, 4, 6, 7, 9, 12 :: int] \<and>
   robust_slope_s_per_beat [3, 4, 6, 7, 9, 12]
     (map (\<lambda>i. 1 / 100 + (- 2 / 1000) * real_of_int i) [3, 4, 6, 7, 9, 12]) = Inr (- 2 / 1000) \<and>
   length [0, 1, 2 :: int] < 6 \<and>
   robust_slope_s_per_beat [0, 1, 2] [1 / 100, 2 / 100, 3 / 100] = Inr 0"
proof -
  let ?c = "example_config\<lparr>min_matches := 14\<rparr>"
  have rm: "record_match ?c None affine_window_state = affine_window_state"
    by (simp add: record_match_def)
  have w1: "6 \<le> length (idx_q affine_window_state)" by (simp add: affine_window_state_def)
  have w2: "err_q affine_window_state
     = map (\<lambda>i. 1 / 100 + 1 / 1000 * real_of_int i) (idx_q affine_window_state)"
    by (simp add: affine_window_state_def)
  have h0: "sim_reachable ?c affine_onsets 5 0 60 affine_window_state \<and>
      6 \<le> length (idx_q (record_match ?c None affine_window_state)) \<and>
      err_q (record_match ?c None affine_window_state)
        = map (\<lambda>i. 1 / 100 + 1 / 1000 * real_of_int i)
            (idx_q (record_match ?c None affine_window_state))"
    unfolding rm using affine_window_reachable w1 w2 by blast
  have h1: "distinct [3, 4, 6, 7, 9, 12 :: int] \<and> 6 \<le> length [3, 4, 6, 7, 9, 12 :: int]" by simp
  have h2: "length [0, 1, 2 :: int] < 6" by simp
  note th = robust_slope_exact_on_affine_errors
    [of ?c affine_onsets 5 0 60 affine_window_state None "1 / 100" "1 / 1000"
        "[3, 4, 6, 7, 9, 12]" "1 / 100" "- 2 / 1000" "[0, 1, 2]" "[1 / 100, 2 / 100, 3 / 100]"]
  from th [THEN conjunct1, THEN mp, OF h0]
  have c1: "robust_slope_s_per_beat (idx_q affine_window_state) (err_q affine_window_state)
     = Inr (1 / 1000)" unfolding rm .
  from c1 affine_window_reachable w1 w2 h1 h2
     th [THEN conjunct2, THEN conjunct1, THEN mp, OF h1]
     th [THEN conjunct2, THEN conjunct2, THEN mp, OF h2]
  show ?thesis by blast
qed

subsection \<open>The classifier and its actions\<close>

lemma jump_excludes_drift: "is_jump c med_e slope \<Longrightarrow> \<not> is_drift c slope"
  by (auto simp: is_jump_def is_drift_def)

lemma count_streaks_jump_only:
  assumes "1 \<le> persist c"
    and "persist c \<le> eval_streak_offset (count_streaks c med_e slope s)"
  shows "eval_streak_drift (count_streaks c med_e slope s) < persist c"
proof -
  from assms have "is_jump c med_e slope"
    by (auto simp: count_streaks_def split: if_splits)
  then have "\<not> is_drift c slope" by (rule jump_excludes_drift)
  with assms(1) show ?thesis by (simp add: count_streaks_def)
qed

lemma classify_runs:
  assumes "min_matches c \<le> int (length (err_q s1))"
    and "robust_slope_s_per_beat (idx_q s1) (err_q s1) = Inr slope"
  shows "classify c matched s1
     = Inr (act c matched (np_median (err_q s1)) slope
              (count_streaks c (np_median (err_q s1)) slope s1))"
  using assms by (simp add: classify_def Let_def)

lemma act_jump:
  assumes "eval_streak_drift s < persist c" and "persist c \<le> eval_streak_offset s"
  shows "act c matched med_e slope s =
     (case anchor_time matched med_e s of
        None \<Rightarrow> s
      | Some a \<Rightarrow> if gap_ok c s (Some a) then emit_jump a s else s)"
  using assms by (simp add: act_def)

lemma act_gap_fails:
  assumes "\<not> gap_ok c s (anchor_time matched med_e s)"
  shows "act c matched med_e slope s = s"
  using assms by (cases "anchor_time matched med_e s") (simp_all add: act_def Let_def gap_ok_def)

text \<open>
  Claim C3, as stated: on every beat where the jump counter has reached \<^verbatim>\<open>persist\<close>
  and the drift action was not taken, the anti-spam check is applied and, on success, a
  timing point is appended.  It fails for \<^verbatim>\<open>persist = 0\<close>: the drift branch of the
  \<^verbatim>\<open>if\<close>/\<^verbatim>\<open>elif\<close> is then entered on every evaluation, so the jump branch never
  runs.  In the run with one onset at 1.03 s, tempo 60 and anchor 0, on the beat at 1 s
  the jump counter is 1, the drift action is not taken (the tempo change is 0), the
  anti-spam check would succeed (1030 ms since the last point), and no point is
  appended; the run returns the seed point only.
\<close>

theorem jump_skipped_when_persist_zero_counterexample:
  "min_matches (example_config\<lparr>persist := 0\<rparr>) \<le> int (length (err_q example_beat)) \<and>
   count_streaks (example_config\<lparr>persist := 0\<rparr>) (np_median (err_q example_beat)) 0 example_beat
     = example_beat\<lparr>eval_streak_offset := 1\<rparr> \<and>
   persist (example_config\<lparr>persist := 0\<rparr>)
     \<le> eval_streak_offset (example_beat\<lparr>eval_streak_offset := 1\<rparr>) \<and>
   gap_ok (example_config\<lparr>persist := 0\<rparr>) (example_beat\<lparr>eval_streak_offset := 1\<rparr>)
     (anchor_time (Some (103 / 100)) (np_median (err_q example_beat))
        (example_beat\<lparr>eval_streak_offset := 1\<rparr>)) \<and>
   classify (example_config\<lparr>persist := 0\<rparr>) (Some (103 / 100)) example_beat
     = Inr (example_beat\<lparr>eval_streak_offset := 1\<rparr>) \<and>
   points (example_beat\<lparr>eval_streak_offset := 1\<rparr>) = points example_beat \<and>
   analyze_core (example_config\<lparr>persist := 0\<rparr>) [103 / 100] 60 0 2 = Some (Inr ([(0, 60)], 60))"
  by (simp add: example_run_persist_0)
    (simp add: example_config_def example_beat_def run_simps)

text \<open>
  Claim C3, amended: on every beat of the simulation loop on which the classifier runs
  and the jump persistence counter has reached \<^verbatim>\<open>persist\<close> while the drift persistence
  counter has not (which is the case whenever \<^verbatim>\<open>persist\<close> is at least 1), the same
  anti-spam anchor/gap check as for drift is applied, and on success a timing point is
  appended whose bpm equals the current bpm (bpm and interval unchanged, only the anchor
  \<open>t0\<close> recomputed), and the window and both counters are cleared; on failure the state
  is left as the counters' update gave it.  Here \<open>s1\<close> is the state of the beat after
  its match has been recorded and \<open>s2\<close> the state after the counters' update.
\<close>

theorem sustained_jump_action:
  assumes "min_matches c \<le> int (length (err_q s1))"
    and "robust_slope_s_per_beat (idx_q s1) (err_q s1) = Inr slope"
    and "s2 = count_streaks c (np_median (err_q s1)) slope s1"
    and "persist c \<le> eval_streak_offset s2"
    and "1 \<le> persist c \<or> eval_streak_drift s2 < persist c"
  shows "\<exists>s'. classify c matched s1 = Inr s' \<and>
     (if gap_ok c s2 (anchor_time matched (np_median (err_q s1)) s2)
      then \<exists>a. anchor_time matched (np_median (err_q s1)) s2 = Some a \<and>
             points s' = points s1 @ [(a, bpm s1)] \<and> last_point_time s' = a \<and>
             bpm s' = bpm s1 \<and> interval s' = interval s1 \<and>
             t0 s' = a - real_of_int (beat_idx s1) * interval s1 \<and>
             err_q s' = [] \<and> idx_q s' = [] \<and>
             eval_streak_drift s' = 0 \<and> eval_streak_offset s' = 0
      else s' = s2)"
proof -
  let ?med = "np_median (err_q s1)"
  from assms(3,4,5) have nd: "eval_streak_drift s2 < persist c"
    using count_streaks_jump_only [of c ?med slope s1] by auto
  have cl: "classify c matched s1 = Inr (act c matched ?med slope s2)"
    unfolding assms(3) using assms(1,2) by (rule classify_runs)
  note aj = act_jump [OF nd assms(4), of matched ?med slope]
  show ?thesis
  proof (cases "gap_ok c s2 (anchor_time matched ?med s2)")
    case False
    then have "act c matched ?med slope s2 = s2" by (rule act_gap_fails)
    with cl False show ?thesis by simp
  next
    case True
    then obtain a where a: "anchor_time matched ?med s2 = Some a"
      by (cases "anchor_time matched ?med s2") (simp_all add: gap_ok_def)
    with True aj have "act c matched ?med slope s2 = emit_jump a s2" by simp
    with cl True a show ?thesis
      by (simp add: emit_jump_def assms(3) count_streaks_def)
  qed
qed

theorem sustained_jump_action_witness:
  "min_matches example_config \<le> int (length (err_q example_beat)) \<and>
   robust_slope_s_per_beat (idx_q example_beat) (err_q example_beat) = Inr 0 \<and>
   example_beat\<lparr>eval_streak_offset := 1\<rparr>
     = count_streaks example_config (np_median (err_q example_beat)) 0 example_beat \<and>
   persist example_config \<le> eval_streak_offset (example_beat\<lparr>eval_streak_offset := 1\<rparr>) \<and>
   1 \<le> persist example_config \<and>
   (\<exists>s'. classify example_config (Some (103 / 100)) example_beat = Inr s' \<and>
     (if gap_ok example_config (example_beat\<lparr>eval_streak_offset := 1\<rparr>)
          (anchor_time (Some (103 / 100)) (np_median (err_q example_beat))
             (example_beat\<lparr>eval_streak_offset := 1\<rparr>))
      then \<exists>a. anchor_time (Some (103 / 100)) (np_median (err_q example_beat))
                  (example_beat\<lparr>eval_streak_offset := 1\<rparr>) = Some a \<and>
             points s' = points example_beat @ [(a, bpm example_beat)] \<and>
             last_point_time s' = a \<and>
             bpm s' = bpm example_beat \<and> interval s' = interval example_beat \<and>
             t0 s' = a - real_of_int (beat_idx example_beat) * interval example_beat \<and>
             err_q s' = [] \<and> idx_q s' = [] \<and>
             eval_streak_drift s' = 0 \<and> eval_streak_offset s' = 0
      else s' = example_beat\<lparr>eval_streak_offset := 1\<rparr>))"
proof -
  have h1: "min_matches example_config \<le> int (length (err_q example_beat))"
    by (simp add: example_config_def example_beat_def)
  note h2 = example_beat_slope
  have h3: "example_beat\<lparr>eval_streak_offset := 1\<rparr>
     = count_streaks example_config (np_median (err_q example_beat)) 0 example_beat"
    by (rule example_beat_counted [symmetric]) (simp_all add: example_config_def)
  have h4: "persist example_config \<le> eval_streak_offset (example_beat\<lparr>eval_streak_offset := 1\<rparr>)"
    by (simp add: example_config_def)
  have h5: "1 \<le> persist example_config" by (simp add: example_config_def)
  show ?thesis
    by (intro conjI h1 h2 h3 h4 h5 sustained_jump_action [OF h1 h2 h3 h4 disjI1 [OF h5]])
qed

text \<open>
  Claim C7: whenever a persistence threshold (drift or jump) is met on a beat but the
  anti-spam minimum-gap check fails, no timing point is appended on that beat, the grid
  state (bpm, interval, anchor \<open>t0\<close>) is not changed, the rolling window is retained,
  and neither persistence counter is reset: the classifier returns the state \<open>s2\<close> that
  the counters' update gave, whose counters are the incremented (or, for a condition
  that does not hold, zeroed) ones.
\<close>

theorem failed_gap_check_changes_nothing:
  assumes "min_matches c \<le> int (length (err_q s1))"
    and "robust_slope_s_per_beat (idx_q s1) (err_q s1) = Inr slope"
    and "s2 = count_streaks c (np_median (err_q s1)) slope s1"
    and "persist c \<le> eval_streak_drift s2 \<or> persist c \<le> eval_streak_offset s2"
    and "\<not> gap_ok c s2 (anchor_time matched (np_median (err_q s1)) s2)"
  shows "classify c matched s1 = Inr s2 \<and>
     points s2 = points s1 \<and> bpm s2 = bpm s1 \<and> interval s2 = interval s1 \<and> t0 s2 = t0 s1 \<and>
     err_q s2 = err_q s1 \<and> idx_q s2 = idx_q s1 \<and>
     eval_streak_drift s2 = (if is_drift c slope then eval_streak_drift s1 + 1 else 0) \<and>
     eval_streak_offset s2 =
       (if is_jump c (np_median (err_q s1)) slope then eval_streak_offset s1 + 1 else 0)"
proof -
  let ?med = "np_median (err_q s1)"
  have "classify c matched s1 = Inr (act c matched ?med slope s2)"
    unfolding assms(3) using assms(1,2) by (rule classify_runs)
  moreover from assms(5) have "act c matched ?med slope s2 = s2" by (rule act_gap_fails)
  ultimately show ?thesis by (simp add: assms(3) count_streaks_def)
qed

theorem failed_gap_check_changes_nothing_witness:
  "min_matches (example_config\<lparr>min_gap_ms := 2000\<rparr>) \<le> int (length (err_q example_beat)) \<and>
   robust_slope_s_per_beat (idx_q example_beat) (err_q example_beat) = Inr 0 \<and>
   example_beat\<lparr>eval_streak_offset := 1\<rparr>
     = count_streaks (example_config\<lparr>min_gap_ms := 2000\<rparr>)
         (np_median (err_q example_beat)) 0 example_beat \<and>
   persist (example_config\<lparr>min_gap_ms := 2000\<rparr>)
     \<le> eval_streak_offset (example_beat\<lparr>eval_streak_offset := 1\<rparr>) \<and>
   \<not> gap_ok (example_config\<lparr>min_gap_ms := 2000\<rparr>) (example_beat\<lparr>eval_streak_offset := 1\<rparr>)
     (anchor_time (Some (103 / 100)) (np_median (err_q example_beat))
        (example_beat\<lparr>eval_streak_offset := 1\<rparr>)) \<and>
   classify (example_config\<lparr>min_gap_ms := 2000\<rparr>) (Some (103 / 100)) example_beat
     = Inr (example_beat\<lparr>eval_streak_offset := 1\<rparr>)"
proof -
  let ?c = "example_config\<lparr>min_gap_ms := 2000\<rparr>"
  let ?s2 = "example_beat\<lparr>eval_streak_offset := 1\<rparr>"
  have h1: "min_matches ?c \<le> int (length (err_q example_beat))"
    by (simp add: example_config_def example_beat_def)
  note h2 = example_beat_slope
  have h3: "?s2 = count_streaks ?c (np_median (err_q example_beat)) 0 example_beat"
    by (rule example_beat_counted [symmetric]) (simp_all add: example_config_def)
  have h4: "persist ?c \<le> eval_streak_offset ?s2" by (simp add: example_config_def)
  have h5: "\<not> gap_ok ?c ?s2 (anchor_time (Some (103 / 100)) (np_median (err_q example_beat)) ?s2)"
    by (simp add: gap_ok_def anchor_time_def example_beat_def)
  note th = failed_gap_check_changes_nothing [OF h1 h2 h3 disjI2 [OF h4] h5]
  show ?thesis by (intro conjI h1 h2 h3 h4 h5 th [THEN conjunct1])
qed

subsection \<open>The returned timing points\<close>

lemma gaps_strictly_increasing:
  assumes "0 < g" and "successively (\<lambda>p q. g \<le> (fst q - fst p) * 1000) (pts :: (real \<times> real) list)"
  shows "sorted_wrt (\<lambda>p q. fst p < fst q) pts"
proof -
  have "successively (\<lambda>p q. fst p < fst q) pts"
    using assms(2)
  proof (rule successively_mono)
    fix p q :: "real \<times> real"
    assume "g \<le> (fst q - fst p) * 1000"
    with assms(1) show "fst p < fst q" by simp
  qed
  moreover have "transp (\<lambda>p q :: real \<times> real. fst p < fst q)"
    by (auto simp: transp_def)
  ultimately show ?thesis by (simp add: successively_conv_sorted_wrt)
qed

text \<open>
  Claim C4: for every configuration with a positive \<^verbatim>\<open>min_gap_ms\<close> and every input
  (onset times, seed tempo, seed anchor, duration), the core analysis returns, and the
  timing-point sequence it returns is strictly increasing in time, with every pair of
  consecutive points at least \<^verbatim>\<open>min_gap_ms\<close> milliseconds apart.
\<close>

theorem timing_points_increasing_with_min_gap:
  assumes "0 < min_gap_ms c"
  shows "\<exists>pts final_bpm.
     analyze_core c raw_onset_times seed_bpm seed_anchor duration = Some (Inr (pts, final_bpm)) \<and>
     sorted_wrt (\<lambda>p q. fst p < fst q) pts \<and>
     successively (\<lambda>p q. min_gap_ms c \<le> (fst q - fst p) * 1000) pts"
proof -
  from analyze_core_returns [of raw_onset_times c seed_anchor seed_bpm duration]
  obtain sf where inv: "sim_inv c sf"
    and res: "analyze_core c raw_onset_times seed_bpm seed_anchor duration
              = Some (Inr (points sf, bpm sf))" by blast
  from inv have gaps: "successively (\<lambda>p q. min_gap_ms c \<le> (fst q - fst p) * 1000) (points sf)"
    by (simp add: sim_inv_def points_ok_def)
  from gaps_strictly_increasing [OF assms gaps] gaps res show ?thesis by blast
qed

theorem timing_points_increasing_with_min_gap_witness:
  "0 < min_gap_ms example_config \<and>
   (\<exists>pts final_bpm.
     analyze_core example_config [103 / 100] 60 0 2 = Some (Inr (pts, final_bpm)) \<and>
     sorted_wrt (\<lambda>p q. fst p < fst q) pts \<and>
     successively (\<lambda>p q. min_gap_ms example_config \<le> (fst q - fst p) * 1000) pts)"
proof -
  have h: "0 < min_gap_ms example_config" by (simp add: example_config_def)
  show ?thesis by (intro conjI h timing_points_increasing_with_min_gap [OF h])
qed

text \<open>
  Claim C9: for every configuration with \<^verbatim>\<open>max_points\<close> at least 1 (the first seed
  point is always present) and every input, the core analysis returns, and the number of
  timing points it returns is at most \<^verbatim>\<open>max_points\<close>.
\<close>

theorem timing_points_at_most_max_points:
  assumes "1 \<le> max_points c"
  shows "\<exists>pts final_bpm.
     analyze_core c raw_onset_times seed_bpm seed_anchor duration = Some (Inr (pts, final_bpm)) \<and>
     int (length pts) \<le> max_points c"
proof -
  from analyze_core_returns [of raw_onset_times c seed_anchor seed_bpm duration]
  obtain sf where inv: "sim_inv c sf"
    and res: "analyze_core c raw_onset_times seed_bpm seed_anchor duration
              = Some (Inr (points sf, bpm sf))" by blast
  from inv assms have "int (length (points sf)) \<le> max_points c" by (simp add: sim_inv_def)
  with res show ?thesis by blast
qed

theorem timing_points_at_most_max_points_witness:
  "1 \<le> max_points (example_config\<lparr>max_points := 2\<rparr>) \<and>
   (\<exists>pts final_bpm.
     analyze_core (example_config\<lparr>max_points := 2\<rparr>) [103 / 100, 206 / 100] 60 0 4
       = Some (Inr (pts, final_bpm)) \<and>
     int (length pts) \<le> max_points (example_config\<lparr>max_points := 2\<rparr>))"
proof -
  have h: "1 \<le> max_points (example_config\<lparr>max_points := 2\<rparr>)" by (simp add: example_config_def)
  show ?thesis by (intro conjI h timing_points_at_most_max_points [OF h])
qed

subsection \<open>No onsets\<close>

lemma beat_step_no_onsets:
  assumes "1 \<le> min_matches c" and "err_q s = []"
  shows "beat_step c [] s = Inr (next_beat s)"
  using assms by (simp add: beat_step_def find_nearest_onset_def record_match_def classify_def)

lemma sim_reachable_no_onsets:
  assumes "sim_reachable c [] duration a b s" and "1 \<le> min_matches c"
  shows "err_q s = [] \<and> points s = [(a, b)] \<and> bpm s = b"
  using assms(1)
proof (induction rule: sim_reachable.induct)
  case (start s)
  from skip_negative_frame [OF start] show ?case by (simp add: init_state_def)
next
  case (step s s')
  from step.IH beat_step_no_onsets [OF assms(2), of s] step(3) show ?case
    by (simp add: next_beat_def)
qed

lemma analyze_core_no_onsets:
  assumes "1 \<le> min_matches c"
  shows "analyze_core c [] seed_bpm seed_anchor duration
     = Some (Inr ([(seed_anchor, effective_bpm seed_bpm)], effective_bpm seed_bpm))"
proof -
  from analyze_core_returns [of "[]" c seed_anchor seed_bpm duration]
  obtain a2 sf where
    a2: "choose_best_phase (snap_anchor [] (window_s c) seed_anchor)
              (60 / effective_bpm seed_bpm) [] (window_s c)
              (phase_search_seconds c) (phase_divisions c) = Some a2"
    and reach: "sim_reachable c [] duration a2 (effective_bpm seed_bpm) sf"
    and res: "analyze_core c [] seed_bpm seed_anchor duration = Some (Inr (points sf, bpm sf))"
    by auto
  from a2 have "a2 = seed_anchor"
    by (simp add: choose_best_phase_no_onsets snap_anchor_def)
  with sim_reachable_no_onsets [OF reach assms] res show ?thesis by simp
qed

text \<open>
  Claim C8, as stated: for every positive seed bpm, with no onsets the single returned
  point carries the seeded bpm.  It fails for a positive seed bpm of at most \<open>10^-6\<close>,
  which the tempo fallback of lines 281 and 282 replaces by 120: with seed bpm
  \<open>10^-7\<close> the returned point has bpm 120.
\<close>

theorem no_onsets_tiny_seed_bpm_counterexample:
  "(0 :: real) < 1 / 10 ^ 7 \<and> 1 \<le> min_matches example_config \<and>
   analyze_core example_config [] (1 / 10 ^ 7) 0 0 = Some (Inr ([(0, 120)], 120)) \<and>
   (120 :: real) \<noteq> 1 / 10 ^ 7"
proof -
  have h: "1 \<le> min_matches example_config" by (simp add: example_config_def)
  from analyze_core_no_onsets [OF h, of "1 / 10 ^ 7" 0 0] show ?thesis
    by (simp add: effective_bpm_def h)
qed

text \<open>
  Claim C8, amended: for every duration, every seed anchor and every seed bpm, and every
  configuration with \<^verbatim>\<open>min_matches\<close> at least 1: if the onset set is empty, the core
  returns exactly one timing point, whose time is the seed anchor, passed through the
  phase selector unchanged, and whose bpm is the seeded bpm if that is greater than
  \<open>10^-6\<close>, and the fallback 120 otherwise.
\<close>

theorem no_onsets_single_seed_point:
  assumes "1 \<le> min_matches c"
  shows "analyze_core c [] seed_bpm seed_anchor duration
     = Some (Inr ([(seed_anchor, if seed_bpm \<le> 1 / 10 ^ 6 then 120 else seed_bpm)],
                  if seed_bpm \<le> 1 / 10 ^ 6 then 120 else seed_bpm))"
  using analyze_core_no_onsets [OF assms, of seed_bpm seed_anchor duration]
  by (simp add: effective_bpm_def)

theorem no_onsets_single_seed_point_witness:
  "1 \<le> min_matches example_config \<and>
   analyze_core example_config [] 90 (- 1 / 4) 10
     = Some (Inr ([(- 1 / 4, if (90 :: real) \<le> 1 / 10 ^ 6 then 120 else 90)],
                  if (90 :: real) \<le> 1 / 10 ^ 6 then 120 else 90))"
proof -
  have h: "1 \<le> min_matches example_config" by (simp add: example_config_def)
  show ?thesis by (intro conjI h no_onsets_single_seed_point [OF h])
qed
end
